theory Spec2Isabelle
  imports Main "HOL-Library.Word" "HOL-Library.Code_Target_Nat"
begin

section \<open>CaskDB: record codec (format.ts) and log store (disk-store.ts)\<close>

text \<open>
  Data representation used throughout.
  \<^item> A Node \<open>Buffer\<close> and the contents of the database file are lists of bytes.
  \<^item> A JavaScript string (key or value) is the list of its UTF-16 code units. Node converts
    between strings and bytes by UTF-8, writing U+FFFD for a lone surrogate and reading
    U+FFFD for every ill-formed byte sequence; \<open>utf8_encode\<close> and \<open>utf8_decode\<close> below
    spell this out.
  \<^item> A JavaScript number holding a header field is an \<open>int\<close>; byte offsets and lengths
    are \<open>nat\<close>. The platform's upper limits on buffer and string sizes are not modelled.
  \<^item> A thrown exception (rejected promise) is the \<open>Inl\<close> injection of a sum type.
\<close>

type_synonym byte = "8 word"
type_synonym Buffer = "byte list"
type_synonym jsstring = "16 word list"

datatype error = RangeError | IOError

subsection \<open>UTF-16 strings and their UTF-8 bytes\<close>

definition is_high :: "16 word \<Rightarrow> bool" where
  "is_high u \<longleftrightarrow> 55296 \<le> unat u \<and> unat u \<le> 56319"

definition is_low :: "16 word \<Rightarrow> bool" where
  "is_low u \<longleftrightarrow> 56320 \<le> unat u \<and> unat u \<le> 57343"

text \<open>The code point of a surrogate pair.\<close>

definition pair_cp :: "16 word \<Rightarrow> 16 word \<Rightarrow> nat" where
  "pair_cp h l = 65536 + (unat h - 55296) * 1024 + (unat l - 56320)"

text \<open>The code point written for a code unit that is not part of a pair: U+FFFD for a
  lone surrogate.\<close>

definition scalar :: "16 word \<Rightarrow> nat" where
  "scalar u = (if is_high u \<or> is_low u then 65533 else unat u)"

text \<open>The UTF-8 bytes of a code point.\<close>

definition utf8_bytes :: "nat \<Rightarrow> byte list" where
  "utf8_bytes cp =
     (if cp < 128 then [of_nat cp]
      else if cp < 2048 then [of_nat (192 + cp div 64), of_nat (128 + cp mod 64)]
      else if cp < 65536 then
        [of_nat (224 + cp div 4096), of_nat (128 + cp div 64 mod 64), of_nat (128 + cp mod 64)]
      else
        [of_nat (240 + cp div 262144), of_nat (128 + cp div 4096 mod 64),
         of_nat (128 + cp div 64 mod 64), of_nat (128 + cp mod 64)])"

text \<open>The UTF-8 encoding of a string: a high surrogate followed by a low one is one
  character of four bytes.\<close>

fun utf8_encode :: "jsstring \<Rightarrow> byte list" where
  "utf8_encode [] = []"
| "utf8_encode [u] = utf8_bytes (scalar u)"
| "utf8_encode (u # l # us) =
     (if is_high u \<and> is_low l then utf8_bytes (pair_cp u l) @ utf8_encode us
      else utf8_bytes (scalar u) @ utf8_encode (l # us))"

text \<open>
  What \<open>buf.write\<close> puts into \<open>n\<close> free bytes: the encoding of the longest prefix of whole
  characters that fits; a character that does not fit entirely is not written.
\<close>

fun utf8_write :: "nat \<Rightarrow> jsstring \<Rightarrow> byte list" where
  "utf8_write n [] = []"
| "utf8_write n [u] =
     (let bs = utf8_bytes (scalar u) in if length bs \<le> n then bs else [])"
| "utf8_write n (u # l # us) =
     (if is_high u \<and> is_low l then
        (let bs = utf8_bytes (pair_cp u l)
         in if length bs \<le> n then bs @ utf8_write (n - length bs) us else [])
      else
        (let bs = utf8_bytes (scalar u)
         in if length bs \<le> n then bs @ utf8_write (n - length bs) (l # us) else []))"

text \<open>The UTF-16 code units of a decoded code point.\<close>

definition units_of :: "nat \<Rightarrow> jsstring" where
  "units_of cp =
     (if cp < 65536 then [of_nat cp]
      else [of_nat (55296 + (cp - 65536) div 1024), of_nat (56320 + (cp - 65536) mod 1024)])"

definition in_range :: "nat \<Rightarrow> nat \<Rightarrow> byte \<Rightarrow> bool" where
  "in_range lo hi b \<longleftrightarrow> lo \<le> unat b \<and> unat b \<le> hi"

text \<open>
  UTF-8 decoding with replacement: a lead byte is followed by the continuation bytes its
  range allows (narrower after \<open>E0\<close>, \<open>ED\<close>, \<open>F0\<close> and \<open>F4\<close>); a byte that cannot start or
  continue a sequence ends it, the started sequence becomes one U+FFFD, and decoding
  resumes at that byte; a sequence cut off by the end of the input is one U+FFFD.
\<close>

fun utf8_decode :: "byte list \<Rightarrow> jsstring" where
  "utf8_decode [] = []"
| "utf8_decode (b # bs) =
     (let x = unat b in
      if x < 128 then of_nat x # utf8_decode bs
      else if 194 \<le> x \<and> x \<le> 223 then
        (case bs of
           [] \<Rightarrow> [65533]
         | c # bs1 \<Rightarrow>
             if in_range 128 191 c
             then units_of ((x - 192) * 64 + (unat c - 128)) @ utf8_decode bs1
             else 65533 # utf8_decode bs)
      else if 224 \<le> x \<and> x \<le> 239 then
        (case bs of
           [] \<Rightarrow> [65533]
         | c # bs1 \<Rightarrow>
             if in_range (if x = 224 then 160 else 128) (if x = 237 then 159 else 191) c
             then (case bs1 of
                     [] \<Rightarrow> [65533]
                   | d # bs2 \<Rightarrow>
                       if in_range 128 191 d
                       then units_of (((x - 224) * 64 + (unat c - 128)) * 64 + (unat d - 128))
                              @ utf8_decode bs2
                       else 65533 # utf8_decode bs1)
             else 65533 # utf8_decode bs)
      else if 240 \<le> x \<and> x \<le> 244 then
        (case bs of
           [] \<Rightarrow> [65533]
         | c # bs1 \<Rightarrow>
             if in_range (if x = 240 then 144 else 128) (if x = 244 then 143 else 191) c
             then (case bs1 of
                     [] \<Rightarrow> [65533]
                   | d # bs2 \<Rightarrow>
                       if in_range 128 191 d
                       then (case bs2 of
                               [] \<Rightarrow> [65533]
                             | e # bs3 \<Rightarrow>
                                 if in_range 128 191 e
                                 then units_of ((((x - 240) * 64 + (unat c - 128)) * 64
                                                  + (unat d - 128)) * 64 + (unat e - 128))
                                        @ utf8_decode bs3
                                 else 65533 # utf8_decode bs2)
                       else 65533 # utf8_decode bs1)
             else 65533 # utf8_decode bs)
      else 65533 # utf8_decode bs)"

declare utf8_decode.simps(2) [simp del]

text \<open>A string is well formed when it has no lone surrogate.\<close>

fun well_formed :: "jsstring \<Rightarrow> bool" where
  "well_formed [] = True"
| "well_formed [u] = (\<not> is_high u \<and> \<not> is_low u)"
| "well_formed (u # l # us) =
     (if is_high u then is_low l \<and> well_formed us
      else \<not> is_low u \<and> well_formed (l # us))"

subsection \<open>Node Buffer primitives used by the codec\<close>

text \<open>\<open>Buffer.alloc(n)\<close>: a zero-filled buffer of \<open>n\<close> bytes.\<close>

definition alloc :: "nat \<Rightarrow> Buffer" where
  "alloc n = replicate n 0"

text \<open>\<open>Buffer.byteLength(string)\<close>: the number of bytes of the UTF-8 encoding.\<close>

definition byteLength :: "jsstring \<Rightarrow> nat" where
  "byteLength s = length (utf8_encode s)"

text \<open>Copying bytes into a buffer at an offset; a buffer never grows, excess bytes are dropped.\<close>

definition write_at :: "Buffer \<Rightarrow> nat \<Rightarrow> byte list \<Rightarrow> Buffer" where
  "write_at buf off bs = take off buf @ take (length buf - off) bs @ drop (off + length bs) buf"

text \<open>The four little-endian bytes of an unsigned 32-bit value.\<close>

definition le32 :: "int \<Rightarrow> byte list" where
  "le32 v = [word_of_int v, word_of_int (v div 256), word_of_int (v div 65536),
             word_of_int (v div 16777216)]"

text \<open>
  \<open>buf.writeUInt32LE(value, offset)\<close>: the value is checked against \<open>[0, 2^32 - 1]\<close> first,
  then the four bytes must lie inside the buffer; either failure throws a RangeError.
\<close>

definition writeUInt32LE :: "Buffer \<Rightarrow> int \<Rightarrow> nat \<Rightarrow> error + Buffer" where
  "writeUInt32LE buf v off =
     (if v > 4294967295 \<or> v < 0 then Inl RangeError
      else if length buf < off + 4 then Inl RangeError
      else Inr (write_at buf off (le32 v)))"

text \<open>\<open>buf.readUInt32LE(offset)\<close>: throws a RangeError unless four bytes are available.\<close>

definition readUInt32LE :: "Buffer \<Rightarrow> nat \<Rightarrow> error + int" where
  "readUInt32LE buf off =
     (if length buf < off + 4 then Inl RangeError
      else Inr (uint (buf ! off) + 256 * uint (buf ! (off + 1))
                + 65536 * uint (buf ! (off + 2)) + 16777216 * uint (buf ! (off + 3))))"

text \<open>
  \<open>buf.toString("utf8", start, end)\<close>: an out-of-range \<open>start\<close> gives the empty string,
  \<open>end\<close> is clamped to the buffer length, an empty range gives the empty string, and the
  bytes of the range are decoded as UTF-8.
\<close>

definition toString :: "Buffer \<Rightarrow> nat \<Rightarrow> nat \<Rightarrow> jsstring" where
  "toString buf start end' =
     (if start \<ge> length buf then []
      else let e = (if end' > length buf then length buf else end')
           in if e \<le> start then [] else utf8_decode (take (e - start) (drop start buf)))"

text \<open>
  \<open>buf.write(string, offset)\<close>: throws when the offset lies beyond the buffer; otherwise
  the UTF-8 bytes of as many whole characters as fit are written at the offset.
\<close>

definition write_str :: "Buffer \<Rightarrow> jsstring \<Rightarrow> nat \<Rightarrow> error + Buffer" where
  "write_str buf s off =
     (if off > length buf then Inl RangeError
      else Inr (write_at buf off (utf8_write (length buf - off) s)))"

subsection \<open>format.ts\<close>

abbreviation HEADER_SIZE :: nat where
  "HEADER_SIZE \<equiv> 12"

record KeyEntry =
  timestamp :: int
  position :: nat
  sizeK :: nat

definition encodeHeader :: "Buffer \<Rightarrow> int \<Rightarrow> int \<Rightarrow> int \<Rightarrow> error + Buffer" where
  "encodeHeader buff ts kSize vSize =
     (case writeUInt32LE buff ts 0 of
        Inl e \<Rightarrow> Inl e
      | Inr b1 \<Rightarrow>
          (case writeUInt32LE b1 kSize 4 of
             Inl e \<Rightarrow> Inl e
           | Inr b2 \<Rightarrow> writeUInt32LE b2 vSize 8))"

definition decodeHeader :: "Buffer \<Rightarrow> nat \<Rightarrow> error + (int \<times> int \<times> int)" where
  "decodeHeader buffer offset =
     (case readUInt32LE buffer offset of
        Inl e \<Rightarrow> Inl e
      | Inr ts \<Rightarrow>
          (case readUInt32LE buffer (offset + 4) of
             Inl e \<Rightarrow> Inl e
           | Inr kSize \<Rightarrow>
               (case readUInt32LE buffer (offset + 8) of
                  Inl e \<Rightarrow> Inl e
                | Inr vSize \<Rightarrow> Inr (ts, kSize, vSize))))"

definition encodeKV :: "int \<Rightarrow> jsstring \<Rightarrow> jsstring \<Rightarrow> error + Buffer" where
  "encodeKV ts key val =
     (let kSize = byteLength key;
          vSize = byteLength val;
          buff = alloc (HEADER_SIZE + kSize + vSize)
      in case encodeHeader buff ts (int kSize) (int vSize) of
           Inl e \<Rightarrow> Inl e
         | Inr b \<Rightarrow> write_str b (key @ val) HEADER_SIZE)"

definition decodeKV :: "Buffer \<Rightarrow> nat \<Rightarrow> error + (int \<times> jsstring \<times> jsstring)" where
  "decodeKV buff offset =
     (case decodeHeader buff offset of
        Inl e \<Rightarrow> Inl e
      | Inr (ts, kSize, vSize) \<Rightarrow>
          Inr (ts,
               toString buff HEADER_SIZE (HEADER_SIZE + nat kSize),
               toString buff (HEADER_SIZE + nat kSize) (HEADER_SIZE + nat kSize + nat vSize)))"

subsection \<open>disk-store.ts\<close>

text \<open>
  The closure state of one \<open>DiskStorage\<close> instance: the KeyDir map, the write cursor and
  the file behind the handle \<open>_file\<close> (its current contents; the handle is opened in
  mode \<open>a+\<close>, so every write lands at the end of the file and reads are positional).
\<close>

record DiskStore =
  keyDir :: "jsstring \<Rightarrow> KeyEntry option"
  writePosition :: nat
  logFile :: "byte list"

text \<open>
  The \<open>while (offset < readResult.bytesRead)\<close> loop of \<open>_initKeyDir\<close>. A header that does
  not fit in the buffer makes \<open>decodeHeader\<close> throw, which rejects the whole open.
\<close>

function initKeyDir_loop ::
  "Buffer \<Rightarrow> nat \<Rightarrow> (jsstring \<Rightarrow> KeyEntry option) \<Rightarrow> error + (jsstring \<Rightarrow> KeyEntry option)"
where
  "initKeyDir_loop buffer offset kd =
     (if offset < length buffer then
        (case decodeHeader buffer offset of
           Inl e \<Rightarrow> Inl e
         | Inr (ts, keySize, valueSize) \<Rightarrow>
             (let entrySize = HEADER_SIZE + nat keySize + nat valueSize;
                  key = toString buffer (offset + HEADER_SIZE)
                          (offset + HEADER_SIZE + nat keySize);
                  val = toString buffer (offset + HEADER_SIZE + nat keySize)
                          (offset + HEADER_SIZE + nat keySize + nat valueSize)
              in if val = [] \<and> kd key \<noteq> None
                 then initKeyDir_loop buffer (offset + entrySize) (kd(key := None))
                 else initKeyDir_loop buffer (offset + entrySize)
                        (kd(key \<mapsto> \<lparr>timestamp = ts, position = offset,
                                     sizeK = HEADER_SIZE + nat keySize + nat valueSize\<rparr>))))
      else Inr kd)"
  by pat_completeness auto
termination
  by (relation "measure (\<lambda>(buffer, offset, kd). length buffer - offset)") auto

declare initKeyDir_loop.simps [simp del]

text \<open>\<open>_initKeyDir\<close>: the whole file is read into a buffer; an empty file needs no scan.\<close>

definition initKeyDir :: "byte list \<Rightarrow> error + (jsstring \<Rightarrow> KeyEntry option)" where
  "initKeyDir f =
     (let buffer = f;
          bytesRead = length buffer
      in if bytesRead = 0 then Inr Map.empty
         else initKeyDir_loop buffer 0 Map.empty)"

text \<open>
  \<open>DiskStorage(path)\<close>, given the contents of the file at \<open>path\<close> (empty for a new file):
  \<open>_keyDir\<close> starts empty, \<open>_writePosition\<close> starts at 0, then \<open>_initKeyDir\<close> runs.
\<close>

definition DiskStorage :: "byte list \<Rightarrow> error + DiskStore" where
  "DiskStorage f =
     (case initKeyDir f of
        Inl e \<Rightarrow> Inl e
      | Inr kd \<Rightarrow> Inr \<lparr>keyDir = kd, writePosition = 0, logFile = f\<rparr>)"

text \<open>
  What the file system does during one call of \<open>set\<close>: both calls succeed, or
  \<open>_file.write\<close> rejects after some prefix of the data reached the file, or the data is
  written and \<open>_file.sync\<close> rejects.
\<close>

datatype io = IoOk | WriteFails nat | SyncFails

definition file_write :: "io \<Rightarrow> byte list \<Rightarrow> Buffer \<Rightarrow> error option \<times> byte list" where
  "file_write env f data =
     (case env of
        WriteFails n \<Rightarrow> (Some IOError, f @ take n data)
      | _ \<Rightarrow> (None, f @ data))"

definition file_sync :: "io \<Rightarrow> error option" where
  "file_sync env = (case env of SyncFails \<Rightarrow> Some IOError | _ \<Rightarrow> None)"

text \<open>
  \<open>set(key, value)\<close> with \<open>ts\<close> the result of \<open>timestamp()\<close>. The result is the exception
  thrown, if any, together with the closure state after the call.
\<close>

definition set_kv :: "io \<Rightarrow> int \<Rightarrow> jsstring \<Rightarrow> jsstring \<Rightarrow> DiskStore \<Rightarrow> error option \<times> DiskStore" where
  "set_kv env ts key val st =
     (case encodeKV ts key val of
        Inl e \<Rightarrow> (Some e, st)
      | Inr data \<Rightarrow>
          (case file_write env (logFile st) data of
             (Some e, f') \<Rightarrow> (Some e, st\<lparr>logFile := f'\<rparr>)
           | (None, f') \<Rightarrow>
               (case file_sync env of
                  Some e \<Rightarrow> (Some e, st\<lparr>logFile := f'\<rparr>)
                | None \<Rightarrow>
                    (let entry = \<lparr>timestamp = ts, position = writePosition st,
                                  sizeK = length data\<rparr>
                     in (None, st\<lparr>logFile := f',
                                  keyDir := (keyDir st)(key \<mapsto> entry),
                                  writePosition := writePosition st + length data\<rparr>)))))"

text \<open>
  \<open>_file.read(Buffer.alloc(size), 0, size, position)\<close>: the bytes available from
  \<open>position\<close> are copied to the front of a zero-filled buffer; a short read is not an error.
\<close>

definition file_read :: "byte list \<Rightarrow> nat \<Rightarrow> nat \<Rightarrow> Buffer" where
  "file_read f n pos = write_at (alloc n) 0 (take n (drop pos f))"

text \<open>\<open>get(key)\<close>: \<open>None\<close> is \<open>undefined\<close>.\<close>

definition get :: "jsstring \<Rightarrow> DiskStore \<Rightarrow> error + jsstring option" where
  "get key st =
     (case keyDir st key of
        None \<Rightarrow> Inr None
      | Some entry \<Rightarrow>
          (let buffer = file_read (logFile st) (sizeK entry) (position entry)
           in case decodeKV buffer 0 of
                Inl e \<Rightarrow> Inl e
              | Inr (ts, k, val) \<Rightarrow> Inr (Some val)))"

text \<open>\<open>close()\<close>: what remains of the instance is the file.\<close>

definition close :: "DiskStore \<Rightarrow> byte list" where
  "close st = logFile st"

subsection \<open>Decoding the record that starts at an offset\<close>

text \<open>
  The decoding the recovery scan performs inline for the record at \<open>offset\<close>, and the
  specification's wording of decode: the header is read at \<open>offset\<close>, the key is the
  \<open>key_size\<close> bytes after the header and the value the next \<open>value_size\<close> bytes.
\<close>

definition decode_record_at :: "Buffer \<Rightarrow> nat \<Rightarrow> error + (int \<times> jsstring \<times> jsstring)" where
  "decode_record_at buff offset =
     (case decodeHeader buff offset of
        Inl e \<Rightarrow> Inl e
      | Inr (ts, kSize, vSize) \<Rightarrow>
          Inr (ts,
               toString buff (offset + HEADER_SIZE) (offset + HEADER_SIZE + nat kSize),
               toString buff (offset + HEADER_SIZE + nat kSize)
                 (offset + HEADER_SIZE + nat kSize + nat vSize)))"

subsection \<open>Well-formed logs\<close>

text \<open>
  A well-formed log is the concatenation of the encodings of records whose timestamp and
  sizes are in range and whose key and value are well-formed strings. \<open>replay\<close> states what the recovery scan computes on such a log, record by
  record, starting at a given file offset.
\<close>

definition record_bytes :: "int \<times> jsstring \<times> jsstring \<Rightarrow> byte list" where
  "record_bytes r =
     (case r of (ts, key, val) \<Rightarrow>
        le32 ts @ le32 (int (byteLength key)) @ le32 (int (byteLength val))
          @ utf8_encode key @ utf8_encode val)"

definition valid_record :: "int \<times> jsstring \<times> jsstring \<Rightarrow> bool" where
  "valid_record r =
     (case r of (ts, key, val) \<Rightarrow>
        0 \<le> ts \<and> ts < 4294967296 \<and> well_formed key \<and> well_formed val \<and>
        byteLength key < 4294967296 \<and> byteLength val < 4294967296)"

fun replay ::
  "nat \<Rightarrow> (int \<times> jsstring \<times> jsstring) list \<Rightarrow> (jsstring \<Rightarrow> KeyEntry option) \<Rightarrow> (jsstring \<Rightarrow> KeyEntry option)"
where
  "replay off [] kd = kd"
| "replay off ((ts, key, val) # rs) kd =
     replay (off + (12 + byteLength key + byteLength val)) rs
       (if val = [] \<and> kd key \<noteq> None then kd(key := None)
        else kd(key \<mapsto> \<lparr>timestamp = ts, position = off,
                         sizeK = 12 + byteLength key + byteLength val\<rparr>))"

section \<open>Properties of the UTF-8 conversion\<close>

text \<open>Decoding a lead byte followed by the continuation bytes its range allows.\<close>

lemma unat_byte: "n < 256 \<Longrightarrow> unat (of_nat n :: byte) = n"
  by (simp add: unat_of_nat)

lemma unat_unit: "n < 65536 \<Longrightarrow> unat (of_nat n :: 16 word) = n"
  by (simp add: unat_of_nat)

lemma dec1:
  "unat b < 128 \<Longrightarrow> utf8_decode (b # bs) = of_nat (unat b) # utf8_decode bs"
  by (simp add: utf8_decode.simps(2) Let_def)

lemma dec2:
  "194 \<le> unat b \<Longrightarrow> unat b \<le> 223 \<Longrightarrow> 128 \<le> unat c \<Longrightarrow> unat c \<le> 191 \<Longrightarrow>
   utf8_decode (b # c # bs) = units_of ((unat b - 192) * 64 + (unat c - 128)) @ utf8_decode bs"
  by (simp add: utf8_decode.simps(2) [of b] in_range_def Let_def)

lemma dec3:
  "224 \<le> unat b \<Longrightarrow> unat b \<le> 239 \<Longrightarrow>
   (if unat b = 224 then 160 else 128) \<le> unat c \<Longrightarrow>
   unat c \<le> (if unat b = 237 then 159 else 191) \<Longrightarrow>
   128 \<le> unat d \<Longrightarrow> unat d \<le> 191 \<Longrightarrow>
   utf8_decode (b # c # d # bs)
     = units_of (((unat b - 224) * 64 + (unat c - 128)) * 64 + (unat d - 128)) @ utf8_decode bs"
  by (simp add: utf8_decode.simps(2) [of b] in_range_def Let_def)

lemma dec4:
  "240 \<le> unat b \<Longrightarrow> unat b \<le> 244 \<Longrightarrow>
   (if unat b = 240 then 144 else 128) \<le> unat c \<Longrightarrow>
   unat c \<le> (if unat b = 244 then 143 else 191) \<Longrightarrow>
   128 \<le> unat d \<Longrightarrow> unat d \<le> 191 \<Longrightarrow> 128 \<le> unat e \<Longrightarrow> unat e \<le> 191 \<Longrightarrow>
   utf8_decode (b # c # d # e # bs)
     = units_of ((((unat b - 240) * 64 + (unat c - 128)) * 64 + (unat d - 128)) * 64
                  + (unat e - 128)) @ utf8_decode bs"
  by (simp add: utf8_decode.simps(2) [of b] in_range_def Let_def)

text \<open>Splitting a code point into groups of six bits.\<close>

lemma split3:
  "((cp::nat) div 4096 * 64 + cp div 64 mod 64) * 64 + cp mod 64 = cp"
proof -
  have a: "cp div 4096 = cp div 64 div 64"
    by (simp add: div_mult2_eq)
  show ?thesis
    unfolding a by (simp only: div_mult_mod_eq)
qed

lemma split4:
  "(((cp::nat) div 262144 * 64 + cp div 4096 mod 64) * 64 + cp div 64 mod 64) * 64
     + cp mod 64 = cp"
proof -
  have a: "cp div 4096 = cp div 64 div 64"
    by (simp add: div_mult2_eq)
  have b: "cp div 262144 = cp div 64 div 64 div 64"
    by (simp add: div_mult2_eq)
  show ?thesis
    unfolding a b by (simp only: div_mult_mod_eq)
qed

lemma second_lo3:
  assumes "2048 \<le> (cp::nat)" "cp div 4096 = 0"
  shows "32 \<le> cp div 64 mod 64"
proof -
  have "cp < 4096" using assms(2) by (simp add: div_eq_0_iff)
  then have "cp div 64 < 64" by arith
  moreover have "32 \<le> cp div 64" using assms(1) by arith
  ultimately show ?thesis by simp
qed

lemma mod64_window:
  assumes "k * 64 \<le> (q::nat)" "q < k * 64 + w" "w \<le> 64"
  shows "q mod 64 < w"
proof -
  have "q = k * 64 + (q - k * 64)" using assms(1) by simp
  then have "q mod 64 = (k * 64 + (q - k * 64)) mod 64" by simp
  also have "\<dots> = (q - k * 64) mod 64" by (simp only: mod_mult_self3)
  also have "\<dots> = q - k * 64" using assms by simp
  finally show ?thesis using assms by simp
qed

lemma second_hi3:
  assumes "cp div 4096 = 13" "\<not> (55296 \<le> (cp::nat) \<and> cp \<le> 57343)"
  shows "cp div 64 mod 64 \<le> 31"
proof -
  have "53248 \<le> cp" "cp < 57344" using assms(1) by arith+
  with assms(2) have "cp < 55296" by arith
  then have "cp div 64 < 13 * 64 + 32" by arith
  moreover have "13 * 64 \<le> cp div 64" using \<open>53248 \<le> cp\<close> by arith
  ultimately have "cp div 64 mod 64 < 32" by (intro mod64_window [of 13]) simp_all
  then show ?thesis by simp
qed

lemma second_lo4:
  assumes "65536 \<le> (cp::nat)" "cp div 262144 = 0"
  shows "16 \<le> cp div 4096 mod 64"
proof -
  have "cp < 262144" using assms(2) by (simp add: div_eq_0_iff)
  then have "cp div 4096 < 64" by arith
  moreover have "16 \<le> cp div 4096" using assms(1) by arith
  ultimately show ?thesis by simp
qed

lemma second_hi4:
  assumes "(cp::nat) \<le> 1114111" "cp div 262144 = 4"
  shows "cp div 4096 mod 64 \<le> 15"
proof -
  have "1048576 \<le> cp" using assms(2) by arith
  then have "4 * 64 \<le> cp div 4096" by arith
  moreover have "cp div 4096 < 4 * 64 + 16" using assms(1) by arith
  ultimately have "cp div 4096 mod 64 < 16" by (intro mod64_window [of 4]) simp_all
  then show ?thesis by simp
qed

lemma first4:
  assumes "(cp::nat) \<le> 1114111"
  shows "cp div 262144 \<le> 4"
  using div_le_mono [OF assms, of 262144] by simp

text \<open>Decoding the bytes of a code point gives its code units back.\<close>

lemma decode_bytes_1:
  assumes "cp < 128"
  shows "utf8_decode (utf8_bytes cp @ bs) = of_nat cp # utf8_decode bs"
proof -
  define b0 :: byte where "b0 = of_nat cp"
  have u0: "unat b0 = cp"
    unfolding b0_def using assms by (intro unat_byte) arith
  have "utf8_bytes cp = [b0]"
    using assms by (simp add: utf8_bytes_def b0_def)
  then show ?thesis
    using dec1 [of b0 bs] assms by (simp add: u0)
qed

lemma decode_bytes_2:
  assumes "128 \<le> cp" "cp < 2048"
  shows "utf8_decode (utf8_bytes cp @ bs) = of_nat cp # utf8_decode bs"
proof -
  define b0 :: byte where "b0 = of_nat (192 + cp div 64)"
  define b1 :: byte where "b1 = of_nat (128 + cp mod 64)"
  have u0: "unat b0 = 192 + cp div 64"
    unfolding b0_def using assms by (intro unat_byte) arith
  have u1: "unat b1 = 128 + cp mod 64"
    unfolding b1_def by (intro unat_byte) arith
  have bytes: "utf8_bytes cp = [b0, b1]"
    using assms by (simp add: utf8_bytes_def b0_def b1_def)
  have "utf8_decode (b0 # b1 # bs)
          = units_of ((unat b0 - 192) * 64 + (unat b1 - 128)) @ utf8_decode bs"
  proof (intro dec2)
    show "194 \<le> unat b0" "unat b0 \<le> 223" using assms unfolding u0 by arith+
    show "128 \<le> unat b1" "unat b1 \<le> 191" unfolding u1 by arith+
  qed
  moreover have "(unat b0 - 192) * 64 + (unat b1 - 128) = cp"
    by (simp add: u0 u1)
  ultimately show ?thesis
    using assms by (simp add: bytes units_of_def)
qed

lemma decode_bytes_3:
  assumes "2048 \<le> cp" "cp < 65536" "\<not> (55296 \<le> cp \<and> cp \<le> 57343)"
  shows "utf8_decode (utf8_bytes cp @ bs) = of_nat cp # utf8_decode bs"
proof -
  define b0 :: byte where "b0 = of_nat (224 + cp div 4096)"
  define b1 :: byte where "b1 = of_nat (128 + cp div 64 mod 64)"
  define b2 :: byte where "b2 = of_nat (128 + cp mod 64)"
  have q: "cp div 4096 \<le> 15"
    using div_le_mono [of cp 65535 4096] assms(2) by simp
  have u0: "unat b0 = 224 + cp div 4096"
    unfolding b0_def using q by (intro unat_byte) simp
  have u1: "unat b1 = 128 + cp div 64 mod 64"
    unfolding b1_def by (intro unat_byte) simp
  have u2: "unat b2 = 128 + cp mod 64"
    unfolding b2_def by (intro unat_byte) simp
  have bytes: "utf8_bytes cp = [b0, b1, b2]"
    using assms by (simp add: utf8_bytes_def b0_def b1_def b2_def)
  have lo: "(if unat b0 = 224 then 160 else 128) \<le> unat b1"
    using second_lo3 [OF assms(1)] by (simp add: u0 u1)
  have hi: "unat b1 \<le> (if unat b0 = 237 then 159 else 191)"
    using second_hi3 [OF _ assms(3)] by (simp add: u0 u1 less_Suc_eq_le [symmetric])
  have "utf8_decode (b0 # b1 # b2 # bs)
          = units_of (((unat b0 - 224) * 64 + (unat b1 - 128)) * 64 + (unat b2 - 128))
              @ utf8_decode bs"
    using lo hi
  proof (intro dec3)
    show "224 \<le> unat b0" "unat b0 \<le> 239" using q unfolding u0 by simp_all
    show "128 \<le> unat b2" "unat b2 \<le> 191" unfolding u2 by simp_all
  qed
  moreover have "((unat b0 - 224) * 64 + (unat b1 - 128)) * 64 + (unat b2 - 128) = cp"
    by (simp only: u0 u1 u2 add_diff_cancel_left' split3)
  ultimately show ?thesis
    using assms by (simp add: bytes units_of_def)
qed

lemma decode_bytes_4:
  assumes "65536 \<le> cp" "cp \<le> 1114111"
  shows "utf8_decode (utf8_bytes cp @ bs) = units_of cp @ utf8_decode bs"
proof -
  define b0 :: byte where "b0 = of_nat (240 + cp div 262144)"
  define b1 :: byte where "b1 = of_nat (128 + cp div 4096 mod 64)"
  define b2 :: byte where "b2 = of_nat (128 + cp div 64 mod 64)"
  define b3 :: byte where "b3 = of_nat (128 + cp mod 64)"
  have q: "cp div 262144 \<le> 4"
    using assms(2) by (rule first4)
  have u0: "unat b0 = 240 + cp div 262144"
    unfolding b0_def using q by (intro unat_byte) simp
  have u1: "unat b1 = 128 + cp div 4096 mod 64"
    unfolding b1_def by (intro unat_byte) simp
  have u2: "unat b2 = 128 + cp div 64 mod 64"
    unfolding b2_def by (intro unat_byte) simp
  have u3: "unat b3 = 128 + cp mod 64"
    unfolding b3_def by (intro unat_byte) simp
  have bytes: "utf8_bytes cp = [b0, b1, b2, b3]"
    using assms by (simp add: utf8_bytes_def b0_def b1_def b2_def b3_def)
  have lo: "(if unat b0 = 240 then 144 else 128) \<le> unat b1"
    using second_lo4 [OF assms(1)] by (simp add: u0 u1)
  have hi: "unat b1 \<le> (if unat b0 = 244 then 143 else 191)"
    using second_hi4 [OF assms(2)] by (simp add: u0 u1 less_Suc_eq_le [symmetric])
  have "utf8_decode (b0 # b1 # b2 # b3 # bs)
          = units_of ((((unat b0 - 240) * 64 + (unat b1 - 128)) * 64 + (unat b2 - 128)) * 64
                       + (unat b3 - 128)) @ utf8_decode bs"
    using lo hi
  proof (intro dec4)
    show "240 \<le> unat b0" "unat b0 \<le> 244" using q unfolding u0 by simp_all
    show "128 \<le> unat b2" "unat b2 \<le> 191" unfolding u2 by simp_all
    show "128 \<le> unat b3" "unat b3 \<le> 191" unfolding u3 by simp_all
  qed
  moreover have "(((unat b0 - 240) * 64 + (unat b1 - 128)) * 64 + (unat b2 - 128)) * 64
                       + (unat b3 - 128) = cp"
    by (simp only: u0 u1 u2 u3 add_diff_cancel_left' split4)
  ultimately show ?thesis
    by (simp add: bytes)
qed

lemma pair_cp_range:
  assumes "is_high h" "is_low l"
  shows "65536 \<le> pair_cp h l" "pair_cp h l \<le> 1114111"
proof -
  show "65536 \<le> pair_cp h l" by (simp add: pair_cp_def)
  have "unat h - 55296 \<le> 1023" "unat l - 56320 \<le> 1023"
    using assms unfolding is_high_def is_low_def by linarith+
  then have "(unat h - 55296) * 1024 + (unat l - 56320) \<le> 1023 * 1024 + 1023"
    by (intro add_mono mult_le_mono1)
  then show "pair_cp h l \<le> 1114111" by (simp add: pair_cp_def)
qed

lemma units_of_pair:
  assumes "is_high h" "is_low l"
  shows "units_of (pair_cp h l) = [h, l]"
proof -
  define a where "a = unat h - 55296"
  define b where "b = unat l - 56320"
  have b: "b < 1024" using assms unfolding b_def is_low_def by linarith
  have ha: "55296 + a = unat h" using assms unfolding a_def is_high_def by linarith
  have lb: "56320 + b = unat l" using assms unfolding b_def is_low_def by linarith
  have d: "(a * 1024 + b) div 1024 = a" using b by simp
  have m: "(a * 1024 + b) mod 1024 = b" using b by simp
  have "units_of (65536 + a * 1024 + b)
          = [of_nat (55296 + a), of_nat (56320 + b)]"
    unfolding units_of_def using d m by (simp add: add.assoc)
  then show ?thesis
    unfolding pair_cp_def a_def [symmetric] b_def [symmetric] by (simp only: ha lb) simp
qed

lemma decode_char_scalar:
  assumes "\<not> is_high u" "\<not> is_low u"
  shows "utf8_decode (utf8_bytes (scalar u) @ bs) = u # utf8_decode bs"
proof -
  have s: "scalar u = unat u" using assms by (simp add: scalar_def)
  have r: "unat u < 65536" using unsigned_less [of u] by simp
  have ns: "\<not> (55296 \<le> unat u \<and> unat u \<le> 57343)"
    using assms by (auto simp: is_high_def is_low_def)
  have "utf8_decode (utf8_bytes (unat u) @ bs) = of_nat (unat u) # utf8_decode bs"
  proof (cases "unat u < 128")
    case True
    then show ?thesis by (rule decode_bytes_1)
  next
    case False
    show ?thesis
    proof (cases "unat u < 2048")
      case True
      with False show ?thesis by (intro decode_bytes_2) simp_all
    next
      case False
      with r ns show ?thesis by (intro decode_bytes_3) simp_all
    qed
  qed
  then show ?thesis by (simp add: s)
qed

lemma decode_char_pair:
  assumes "is_high h" "is_low l"
  shows "utf8_decode (utf8_bytes (pair_cp h l) @ bs) = h # l # utf8_decode bs"
  using decode_bytes_4 [OF pair_cp_range [OF assms], of bs] units_of_pair [OF assms]
  by simp

text \<open>Decoding inverts encoding on well-formed strings.\<close>

lemma decode_encode:
  "well_formed s \<Longrightarrow> utf8_decode (utf8_encode s @ bs) = s @ utf8_decode bs"
proof (induction s rule: utf8_encode.induct)
  case 1
  then show ?case by simp
next
  case (2 u)
  then show ?case by (simp add: decode_char_scalar)
next
  case (3 u l us)
  show ?case
  proof (cases "is_high u")
    case True
    with "3.prems" have l: "is_low l" and w: "well_formed us" by simp_all
    show ?thesis
      using True l "3.IH"(1) [OF _ w] by (simp add: decode_char_pair)
  next
    case False
    with "3.prems" have nl: "\<not> is_low u" and w: "well_formed (l # us)" by simp_all
    show ?thesis
      using False nl "3.IH"(2) [OF _ w] by (simp add: decode_char_scalar)
  qed
qed

lemma decode_encode_id: "well_formed s \<Longrightarrow> utf8_decode (utf8_encode s) = s"
  using decode_encode [of s "[]"] by simp

text \<open>After a well-formed string, encoding continues with the next string.\<close>

lemma encode_append:
  "well_formed k \<Longrightarrow> utf8_encode (k @ v) = utf8_encode k @ utf8_encode v"
proof (induction k rule: well_formed.induct)
  case 1
  then show ?case by simp
next
  case (2 u)
  then show ?case by (cases v) simp_all
next
  case (3 u l us)
  then show ?case by (cases "is_high u") simp_all
qed

lemma utf8_write_fits:
  "length (utf8_encode s) \<le> n \<Longrightarrow> utf8_write n s = utf8_encode s"
  by (induction n s rule: utf8_write.induct) (auto simp: Let_def)

section \<open>Properties of the codec\<close>

lemma toString_take_drop:
  "toString buf s e = utf8_decode (take (e - s) (drop s buf))"
  by (auto simp: toString_def Let_def)

lemma length_write_at: "length (write_at buf off bs) = length buf"
  by (auto simp: write_at_def)

lemma length_le32: "length (le32 v) = 4"
  by (simp add: le32_def)

lemma write_at_append:
  "length pre = off \<Longrightarrow> length mid = length bs \<Longrightarrow>
   write_at (pre @ mid @ post) off bs = pre @ bs @ post"
  by (simp add: write_at_def)

lemma bytes_sum:
  "(v::int) mod 256 + 256 * (v div 256 mod 256) + 65536 * (v div 65536 mod 256)
     + 16777216 * (v div 16777216) = v"
proof -
  have a: "v div 65536 = v div 256 div 256"
    by (simp add: zdiv_zmult2_eq)
  have b: "v div 16777216 = v div 256 div 256 div 256"
    by (simp add: zdiv_zmult2_eq)
  show ?thesis unfolding a b
    using mult_div_mod_eq [of 256 v] mult_div_mod_eq [of 256 "v div 256"]
          mult_div_mod_eq [of 256 "v div 256 div 256"]
    by linarith
qed

lemma read_le32:
  assumes "0 \<le> v" "v < 4294967296" "length pre = off"
  shows "readUInt32LE (pre @ le32 v @ post) off = Inr v"
  using assms
  by (simp add: readUInt32LE_def le32_def nth_append uint_word_of_int bytes_sum)

lemma write_le32:
  assumes "0 \<le> v" "v < 4294967296" "length pre = off" "length mid = 4"
  shows "writeUInt32LE (pre @ mid @ post) v off = Inr (pre @ le32 v @ post)"
  using assms by (simp add: writeUInt32LE_def write_at_append length_le32)

lemma split_header:
  assumes "12 \<le> length (buff :: byte list)"
  shows "\<exists>b1 b2 b3. buff = b1 @ b2 @ b3 @ drop 12 buff
           \<and> length b1 = 4 \<and> length b2 = 4 \<and> length b3 = 4"
proof -
  let ?b1 = "take 4 buff" and ?b2 = "take 4 (drop 4 buff)" and ?b3 = "take 4 (drop 8 buff)"
  have "?b3 @ drop 4 (drop 8 buff) = drop 8 buff"
    by (rule append_take_drop_id)
  then have c: "drop 8 buff = ?b3 @ drop 12 buff"
    by simp
  have "?b2 @ drop 4 (drop 4 buff) = drop 4 buff"
    by (rule append_take_drop_id)
  then have b: "drop 4 buff = ?b2 @ drop 8 buff"
    by simp
  have a: "buff = ?b1 @ drop 4 buff"
    by simp
  have "?b1 @ ?b2 @ ?b3 @ drop 12 buff = ?b1 @ ?b2 @ drop 8 buff"
    by (simp only: c [symmetric])
  also have "\<dots> = ?b1 @ drop 4 buff"
    by (simp only: b [symmetric])
  also have "\<dots> = buff"
    by (simp only: a [symmetric])
  finally have "buff = ?b1 @ ?b2 @ ?b3 @ drop 12 buff"
    by (rule sym)
  moreover have "length ?b1 = 4" "length ?b2 = 4" "length ?b3 = 4"
    using assms by simp_all
  ultimately show ?thesis by blast
qed

lemma encodeHeader_ok:
  assumes "0 \<le> ts" "ts < 4294967296" "0 \<le> ks" "ks < 4294967296" "0 \<le> vs" "vs < 4294967296"
    and "12 \<le> length buff"
  shows "encodeHeader buff ts ks vs = Inr (le32 ts @ le32 ks @ le32 vs @ drop 12 buff)"
proof -
  obtain b1 b2 b3 where b: "buff = b1 @ b2 @ b3 @ drop 12 buff"
    and l: "length b1 = 4" "length b2 = 4" "length b3 = 4"
    using split_header [OF assms(7)] by blast
  let ?r = "drop 12 buff"
  have w1: "writeUInt32LE ([] @ b1 @ (b2 @ b3 @ ?r)) ts 0 = Inr ([] @ le32 ts @ (b2 @ b3 @ ?r))"
    using assms l by (intro write_le32) simp_all
  have w2: "writeUInt32LE (le32 ts @ b2 @ (b3 @ ?r)) ks 4 = Inr (le32 ts @ le32 ks @ (b3 @ ?r))"
    using assms l by (intro write_le32) (simp_all add: length_le32)
  have w3: "writeUInt32LE ((le32 ts @ le32 ks) @ b3 @ ?r) vs 8
             = Inr ((le32 ts @ le32 ks) @ le32 vs @ ?r)"
    using assms l by (intro write_le32) (simp_all add: length_le32)
  have "encodeHeader (b1 @ b2 @ b3 @ ?r) ts ks vs = Inr (le32 ts @ le32 ks @ le32 vs @ ?r)"
    using w1 w2 w3 by (simp add: encodeHeader_def)
  with b show ?thesis by simp
qed

lemma decodeHeader_bytes:
  assumes "0 \<le> ts" "ts < 4294967296" "0 \<le> ks" "ks < 4294967296" "0 \<le> vs" "vs < 4294967296"
    and "length pre = off"
  shows "decodeHeader (pre @ le32 ts @ le32 ks @ le32 vs @ post) off = Inr (ts, ks, vs)"
proof -
  have r1: "readUInt32LE (pre @ le32 ts @ (le32 ks @ le32 vs @ post)) off = Inr ts"
    using assms by (intro read_le32) simp_all
  have r2: "readUInt32LE ((pre @ le32 ts) @ le32 ks @ (le32 vs @ post)) (off + 4) = Inr ks"
    using assms by (intro read_le32) (simp_all add: length_le32)
  have r3: "readUInt32LE ((pre @ le32 ts @ le32 ks) @ le32 vs @ post) (off + 8) = Inr vs"
    using assms by (intro read_le32) (simp_all add: length_le32)
  show ?thesis using r1 r2 r3 by (simp add: decodeHeader_def)
qed

lemma decodeHeader_short:
  "length buff < off + 12 \<Longrightarrow> decodeHeader buff off = Inl RangeError"
  by (auto simp: decodeHeader_def readUInt32LE_def)

lemma decodeHeader_long:
  "off + 12 \<le> length buff \<Longrightarrow> \<exists>ts ks vs. decodeHeader buff off = Inr (ts, ks, vs)"
  by (auto simp: decodeHeader_def readUInt32LE_def)

text \<open>
  The bytes \<open>encodeKV\<close> produces for a well-formed key: header, key, value, with no
  separator.
\<close>

lemma encodeKV_bytes:
  assumes "0 \<le> ts" "ts < 4294967296" "well_formed key"
    and "byteLength key < 4294967296" "byteLength val < 4294967296"
  shows "encodeKV ts key val
           = Inr (le32 ts @ le32 (int (byteLength key)) @ le32 (int (byteLength val))
                  @ utf8_encode key @ utf8_encode val)"
proof -
  define ks where "ks = byteLength key"
  define vs where "vs = byteLength val"
  define payload where "payload = utf8_encode key @ utf8_encode val"
  have lp: "length payload = ks + vs"
    by (simp add: payload_def ks_def vs_def byteLength_def)
  have enc: "utf8_encode (key @ val) = payload"
    using assms(3) by (simp add: payload_def encode_append)
  have d: "drop 12 (alloc (12 + (ks + vs))) = replicate (ks + vs) 0"
    by (simp add: alloc_def)
  have "encodeHeader (alloc (12 + (ks + vs))) ts (int ks) (int vs)
          = Inr (le32 ts @ le32 (int ks) @ le32 (int vs) @ drop 12 (alloc (12 + (ks + vs))))"
    using assms unfolding ks_def vs_def by (intro encodeHeader_ok) (simp_all add: alloc_def)
  then have h: "encodeHeader (alloc (12 + (ks + vs))) ts (int ks) (int vs)
          = Inr (le32 ts @ le32 (int ks) @ le32 (int vs) @ replicate (ks + vs) 0)"
    by (simp only: d)
  have fit: "utf8_write (ks + vs) (key @ val) = payload"
    using utf8_write_fits [of "key @ val" "ks + vs"] by (simp add: enc lp)
  have w: "write_at ((le32 ts @ le32 (int ks) @ le32 (int vs)) @ replicate (ks + vs) 0 @ []) 12
             payload
           = (le32 ts @ le32 (int ks) @ le32 (int vs)) @ payload @ []"
    by (intro write_at_append) (simp_all add: length_le32 lp)
  have "encodeKV ts key val = Inr (le32 ts @ le32 (int ks) @ le32 (int vs) @ payload)"
    using h w fit
    by (simp add: encodeKV_def ks_def [symmetric] vs_def [symmetric] Let_def write_str_def
        length_le32 add.assoc)
  then show ?thesis
    by (simp add: ks_def vs_def payload_def)
qed

text \<open>Decoding those bytes at offset 0 gives the triple back when the strings are well
  formed.\<close>

lemma decodeKV_record_bytes:
  assumes "0 \<le> ts" "ts < 4294967296" "well_formed key" "well_formed val"
    and "byteLength key < 4294967296" "byteLength val < 4294967296"
  shows "decodeKV (le32 ts @ le32 (int (byteLength key)) @ le32 (int (byteLength val))
                     @ utf8_encode key @ utf8_encode val) 0
           = Inr (ts, key, val)"
proof -
  define ks where "ks = byteLength key"
  define vs where "vs = byteLength val"
  define kb where "kb = utf8_encode key"
  define vb where "vb = utf8_encode val"
  have lk: "length kb = ks" and lv: "length vb = vs"
    by (simp_all add: kb_def vb_def ks_def vs_def byteLength_def)
  have dk: "utf8_decode kb = key" and dv: "utf8_decode vb = val"
    using assms(3,4) by (simp_all add: kb_def vb_def decode_encode_id)
  have "decodeHeader ([] @ le32 ts @ le32 (int ks) @ le32 (int vs) @ (kb @ vb)) 0
          = Inr (ts, int ks, int vs)"
    using assms unfolding ks_def vs_def by (intro decodeHeader_bytes) simp_all
  then have "decodeKV (le32 ts @ le32 (int ks) @ le32 (int vs) @ kb @ vb) 0
               = Inr (ts, key, val)"
    by (simp add: decodeKV_def toString_take_drop length_le32 lk lv dk dv)
  then show ?thesis
    by (simp add: ks_def vs_def kb_def vb_def)
qed

lemma byte_low: 
  assumes "0 \<le> r" "r < 256"
  shows "(word_of_int (r + 256 * k) :: byte) = word_of_int r"
proof -
  have "(r + 256 * k) mod 2 ^ 8 = r mod 2 ^ 8"
    by simp
  then show ?thesis
    by (simp only: word_of_int_eq_iff take_bit_eq_mod) simp
qed

lemma div_low:
  assumes "0 \<le> r" "r < 256"
  shows "(r + 256 * m) div 256 = (m::int)"
  using assms by simp

lemma le32_word_bytes:
  fixes a b c d :: byte
  shows "le32 (uint a + 256 * uint b + 65536 * uint c + 16777216 * uint d) = [a, b, c, d]"
proof -
  define v where "v = uint a + 256 * uint b + 65536 * uint c + 16777216 * uint d"
  have ra: "0 \<le> uint a" "uint a < 256" and rb: "0 \<le> uint b" "uint b < 256"
    and rc: "0 \<le> uint c" "uint c < 256" and rd: "0 \<le> uint d" "uint d < 256"
    using uint_lt2p [of a] uint_lt2p [of b] uint_lt2p [of c] uint_lt2p [of d] by simp_all
  have v0: "v = uint a + 256 * (uint b + 256 * (uint c + 256 * uint d))"
    by (simp add: v_def)
  have d1: "v div 256 = uint b + 256 * (uint c + 256 * uint d)"
    unfolding v0 using ra by (rule div_low)
  have d2: "v div 65536 = uint c + 256 * uint d"
  proof -
    have "v div 65536 = v div 256 div 256" by (simp add: zdiv_zmult2_eq)
    then show ?thesis unfolding d1 using div_low [OF rb] by simp
  qed
  have d3: "v div 16777216 = uint d"
  proof -
    have "v div 16777216 = v div 65536 div 256" by (simp add: zdiv_zmult2_eq)
    then show ?thesis unfolding d2 using div_low [OF rc] by simp
  qed
  have "word_of_int v = a"
    unfolding v0 by (simp only: byte_low [OF ra] word_of_int_uint)
  moreover have "word_of_int (v div 256) = b"
    unfolding d1 by (simp only: byte_low [OF rb] word_of_int_uint)
  moreover have "word_of_int (v div 65536) = c"
    unfolding d2 by (simp only: byte_low [OF rc] word_of_int_uint)
  moreover have "word_of_int (v div 16777216) = d"
    unfolding d3 by (simp only: word_of_int_uint)
  ultimately show ?thesis
    unfolding v_def [symmetric] by (simp add: le32_def)
qed

lemma le32_onto:
  assumes "length (xs :: byte list) = 4"
  shows "\<exists>v. 0 \<le> v \<and> v < 4294967296 \<and> le32 v = xs"
proof -
  obtain a b c d where xs: "xs = [a, b, c, d]"
    using assms by (auto simp: length_Suc_conv numeral_eq_Suc)
  define v where "v = uint a + 256 * uint b + 65536 * uint c + 16777216 * uint d"
  have ra: "0 \<le> uint a" "uint a < 256" and rb: "0 \<le> uint b" "uint b < 256"
    and rc: "0 \<le> uint c" "uint c < 256" and rd: "0 \<le> uint d" "uint d < 256"
    using uint_lt2p [of a] uint_lt2p [of b] uint_lt2p [of c] uint_lt2p [of d] by simp_all
  have "0 \<le> v" "v < 4294967296"
    unfolding v_def using ra rb rc rd by linarith+
  moreover have "le32 v = xs"
    unfolding v_def xs by (rule le32_word_bytes)
  ultimately show ?thesis by blast
qed

text \<open>
  The header \<open>decodeHeader\<close> returns is the one whose little-endian bytes are the twelve
  bytes of the buffer at the offset.
\<close>

lemma decodeHeader_reads:
  assumes "off + 12 \<le> length buff"
  shows "\<exists>ts ks vs. 0 \<le> ts \<and> ts < 4294967296 \<and> 0 \<le> ks \<and> ks < 4294967296 \<and>
           0 \<le> vs \<and> vs < 4294967296 \<and>
           take 12 (drop off buff) = le32 ts @ le32 ks @ le32 vs \<and>
           decodeHeader buff off = Inr (ts, ks, vs)"
proof -
  define pre where "pre = take off buff"
  define h where "h = take 12 (drop off buff)"
  define post where "post = drop 12 (drop off buff)"
  have buff: "buff = pre @ h @ post"
    unfolding pre_def h_def post_def by (simp only: append_take_drop_id)
  have lpre: "length pre = off" and lh: "length h = 12"
    using assms by (simp_all add: pre_def h_def)
  obtain b1 b2 b3 where h3: "h = b1 @ b2 @ b3 @ drop 12 h"
    and l: "length b1 = 4" "length b2 = 4" "length b3 = 4"
    using split_header [of h] lh by auto
  have h': "h = b1 @ b2 @ b3"
    using h3 lh by simp
  obtain ts where ts: "0 \<le> ts" "ts < 4294967296" "le32 ts = b1"
    using le32_onto [OF l(1)] by blast
  obtain ks where ks: "0 \<le> ks" "ks < 4294967296" "le32 ks = b2"
    using le32_onto [OF l(2)] by blast
  obtain vs where vs: "0 \<le> vs" "vs < 4294967296" "le32 vs = b3"
    using le32_onto [OF l(3)] by blast
  have "decodeHeader (pre @ le32 ts @ le32 ks @ le32 vs @ post) off = Inr (ts, ks, vs)"
    using ts(1,2) ks(1,2) vs(1,2) lpre by (rule decodeHeader_bytes)
  then have "decodeHeader buff off = Inr (ts, ks, vs)"
    by (simp add: buff h' ts(3) ks(3) vs(3))
  moreover have "take 12 (drop off buff) = le32 ts @ le32 ks @ le32 vs"
    using h' by (simp add: h_def [symmetric] ts(3) ks(3) vs(3))
  ultimately show ?thesis
    using ts(1,2) ks(1,2) vs(1,2) by blast
qed

text \<open>
  C6 (the claim as stated does not hold). A key that is a lone high surrogate has a byte
  length of 3, is written as U+FFFD and is decoded as U+FFFD, not as the key. When the key
  ends with a high surrogate and the value starts with the matching low one, the two are
  written as one four-byte character into the six bytes sized for them, and neither comes
  back.
\<close>

theorem roundtrip_lone_surrogate:
  "byteLength [55296] = 3 \<and> byteLength [120] = 1 \<and>
   encodeKV 5 [55296] [120]
     = Inr [5, 0, 0, 0, 3, 0, 0, 0, 1, 0, 0, 0, 239, 191, 189, 120] \<and>
   decodeKV [5, 0, 0, 0, 3, 0, 0, 0, 1, 0, 0, 0, 239, 191, 189, 120] 0
     = Inr (5, [65533], [120]) \<and>
   decodeKV [5, 0, 0, 0, 3, 0, 0, 0, 1, 0, 0, 0, 239, 191, 189, 120] 0
     \<noteq> Inr (5, [55296], [120]) \<and>
   encodeKV 5 [55357] [56832]
     = Inr [5, 0, 0, 0, 3, 0, 0, 0, 3, 0, 0, 0, 240, 159, 152, 128, 0, 0] \<and>
   decodeKV [5, 0, 0, 0, 3, 0, 0, 0, 3, 0, 0, 0, 240, 159, 152, 128, 0, 0] 0
     = Inr (5, [65533], [65533, 0, 0])"
  by code_simp

text \<open>
  C6 (amended). Round trip: for every timestamp in \<open>[0, 2^32 - 1]\<close> and every key and
  value that are well-formed strings (no lone surrogate) whose UTF-8 byte lengths fit in
  32 bits, \<open>encodeKV\<close> succeeds and \<open>decodeKV\<close> at offset 0 returns the original triple.
\<close>

theorem decodeKV_encodeKV:
  assumes "0 \<le> ts" "ts < 4294967296" "well_formed key" "well_formed val"
    and "byteLength key < 4294967296" "byteLength val < 4294967296"
  shows "\<exists>buf. encodeKV ts key val = Inr buf \<and> decodeKV buf 0 = Inr (ts, key, val)"
  using assms encodeKV_bytes [of ts key val] decodeKV_record_bytes [of ts key val]
  by simp

theorem decodeKV_encodeKV_witness:
  "\<exists>buf. encodeKV 1700000000 [102, 233, 8364] [55357, 56832, 98] = Inr buf
         \<and> decodeKV buf 0 = Inr (1700000000, [102, 233, 8364], [55357, 56832, 98])"
proof -
  have w: "well_formed [102, 233, 8364]" "well_formed [55357, 56832, 98]"
    by code_simp+
  have b: "byteLength [102, 233, 8364] < 4294967296" "byteLength [55357, 56832, 98] < 4294967296"
    by code_simp+
  show ?thesis
    using decodeKV_encodeKV [of 1700000000 "[102, 233, 8364]" "[55357, 56832, 98]"] w b
    by simp
qed

text \<open>
  C7. Boundary of the header encoder: a timestamp, key size or value size equal to \<open>2^32\<close>
  makes \<open>encodeHeader\<close> throw the range error of \<open>writeUInt32LE\<close> (the encoding error), and
  with all three fields equal to \<open>2^32 - 1\<close> it succeeds, writing twelve bytes \<open>0xFF\<close>.
\<close>

theorem encodeHeader_boundary:
  "encodeHeader buff 4294967296 ks vs = Inl RangeError \<and>
   encodeHeader buff ts 4294967296 vs = Inl RangeError \<and>
   encodeHeader buff ts ks 4294967296 = Inl RangeError \<and>
   (12 \<le> length buff \<longrightarrow>
      encodeHeader buff 4294967295 4294967295 4294967295
        = Inr (replicate 12 255 @ drop 12 buff))"
proof (intro conjI impI)
  show "encodeHeader buff 4294967296 ks vs = Inl RangeError"
    by (simp add: encodeHeader_def writeUInt32LE_def)
  show "encodeHeader buff ts 4294967296 vs = Inl RangeError"
    by (simp add: encodeHeader_def writeUInt32LE_def split: sum.splits)
  show "encodeHeader buff ts ks 4294967296 = Inl RangeError"
    by (auto simp add: encodeHeader_def writeUInt32LE_def split: sum.splits)
next
  assume len: "12 \<le> length buff"
  have "le32 4294967295 = replicate 4 255" by code_simp
  then show "encodeHeader buff 4294967295 4294967295 4294967295
               = Inr (replicate 12 255 @ drop 12 buff)"
    using encodeHeader_ok [of 4294967295 4294967295 4294967295 buff] len
    by (simp add: replicate_add [symmetric])
qed

theorem encodeHeader_boundary_witness:
  "encodeHeader (alloc 12) 4294967296 5 3 = Inl RangeError \<and>
   encodeHeader (alloc 12) 5 4294967296 3 = Inl RangeError \<and>
   encodeHeader (alloc 12) 5 5 4294967296 = Inl RangeError \<and>
   encodeHeader (alloc 12) 4294967295 4294967295 4294967295 = Inr (replicate 12 255)"
  using encodeHeader_boundary [of "alloc 12" 5 3 5] by (simp add: alloc_def)

text \<open>
  C5 (the claim as stated does not hold). The claim says that \<open>decodeKV\<close> fails whenever
  the buffer ends before the key and value bytes declared by the header. A buffer holding
  only a header that declares a one-byte key and a one-byte value is decoded without error,
  to an empty key and an empty value; and a buffer that ends after the first byte of a
  declared two-byte key is decoded without error, to the key U+FFFD.
\<close>

theorem decodeKV_short_payload_returns:
  "length [0, 0, 0, 0, 1, 0, 0, 0, 1, 0, 0, 0 :: byte] < 12 + 1 + 1 \<and>
   decodeHeader [0, 0, 0, 0, 1, 0, 0, 0, 1, 0, 0, 0] 0 = Inr (0, 1, 1) \<and>
   decodeKV [0, 0, 0, 0, 1, 0, 0, 0, 1, 0, 0, 0] 0 = Inr (0, [], []) \<and>
   length [0, 0, 0, 0, 2, 0, 0, 0, 0, 0, 0, 0, 195 :: byte] < 12 + 2 + 0 \<and>
   decodeHeader [0, 0, 0, 0, 2, 0, 0, 0, 0, 0, 0, 0, 195] 0 = Inr (0, 2, 0) \<and>
   decodeKV [0, 0, 0, 0, 2, 0, 0, 0, 0, 0, 0, 0, 195] 0 = Inr (0, [65533], [])"
  by code_simp

text \<open>
  C5 (amended). \<open>decodeKV\<close> fails, with the RangeError of \<open>readUInt32LE\<close>, exactly when
  the twelve header bytes at the offset are not all inside the buffer. When they are, it
  returns a result, also when the buffer ends before the key and value bytes the header
  declares. At offset 0 the key and the value returned are then the UTF-8 decodings (with
  U+FFFD for an ill-formed or cut-off sequence) of the bytes the buffer holds in the
  ranges \<open>[12, 12 + key_size)\<close> and \<open>[12 + key_size, 12 + key_size + value_size)\<close>, cut
  off at the end of the buffer.
\<close>

theorem decodeKV_truncated:
  "(length buff < off + 12 \<longrightarrow> decodeKV buff off = Inl RangeError) \<and>
   (off + 12 \<le> length buff \<longrightarrow> (\<exists>ts k v. decodeKV buff off = Inr (ts, k, v))) \<and>
   (12 \<le> length buff \<longrightarrow>
      (\<exists>ts ks vs. 0 \<le> ts \<and> ts < 4294967296 \<and> 0 \<le> ks \<and> ks < 4294967296 \<and>
         0 \<le> vs \<and> vs < 4294967296 \<and>
         take 12 buff = le32 ts @ le32 ks @ le32 vs \<and>
         decodeKV buff 0 = Inr (ts, utf8_decode (take (nat ks) (drop 12 buff)),
                                 utf8_decode (take (nat vs) (drop (12 + nat ks) buff)))))"
proof (intro conjI impI)
  assume "length buff < off + 12"
  then show "decodeKV buff off = Inl RangeError"
    by (simp add: decodeKV_def decodeHeader_short)
next
  assume "off + 12 \<le> length buff"
  then obtain ts ks vs where "decodeHeader buff off = Inr (ts, ks, vs)"
    using decodeHeader_long by blast
  then show "\<exists>ts k v. decodeKV buff off = Inr (ts, k, v)"
    by (simp add: decodeKV_def)
next
  assume "12 \<le> length buff"
  then obtain ts ks vs where r: "0 \<le> ts" "ts < 4294967296" "0 \<le> ks" "ks < 4294967296"
      "0 \<le> vs" "vs < 4294967296"
    and b: "take 12 (drop 0 buff) = le32 ts @ le32 ks @ le32 vs"
    and h: "decodeHeader buff 0 = Inr (ts, ks, vs)"
    using decodeHeader_reads [of 0 buff] by auto
  have "decodeKV buff 0 = Inr (ts, utf8_decode (take (nat ks) (drop 12 buff)),
                                 utf8_decode (take (nat vs) (drop (12 + nat ks) buff)))"
    using h by (simp add: decodeKV_def toString_take_drop)
  with r b show "\<exists>ts ks vs. 0 \<le> ts \<and> ts < 4294967296 \<and> 0 \<le> ks \<and> ks < 4294967296 \<and>
         0 \<le> vs \<and> vs < 4294967296 \<and>
         take 12 buff = le32 ts @ le32 ks @ le32 vs \<and>
         decodeKV buff 0 = Inr (ts, utf8_decode (take (nat ks) (drop 12 buff)),
                                 utf8_decode (take (nat vs) (drop (12 + nat ks) buff)))"
    by auto
qed

theorem decodeKV_truncated_witness:
  "decodeKV [5, 0, 0, 0, 1, 0, 0, 0, 1, 0, 0] 0 = Inl RangeError \<and>
   (\<exists>ts k v. decodeKV [9, 5, 0, 0, 0, 2, 0, 0, 0, 1, 0, 0, 0, 195] 1 = Inr (ts, k, v)) \<and>
   (\<exists>ts ks vs. 0 \<le> ts \<and> ts < 4294967296 \<and> 0 \<le> ks \<and> ks < 4294967296 \<and>
      0 \<le> vs \<and> vs < 4294967296 \<and>
      take 12 [5, 0, 0, 0, 2, 0, 0, 0, 1, 0, 0, 0, 195] = le32 ts @ le32 ks @ le32 vs \<and>
      decodeKV [5, 0, 0, 0, 2, 0, 0, 0, 1, 0, 0, 0, 195] 0
        = Inr (ts, utf8_decode (take (nat ks) (drop 12 [5, 0, 0, 0, 2, 0, 0, 0, 1, 0, 0, 0, 195])),
               utf8_decode (take (nat vs)
                 (drop (12 + nat ks) [5, 0, 0, 0, 2, 0, 0, 0, 1, 0, 0, 0, 195])))) \<and>
   decodeKV [5, 0, 0, 0, 2, 0, 0, 0, 1, 0, 0, 0, 195] 0 = Inr (5, [65533], [])"
proof -
  have e: "decodeKV [5, 0, 0, 0, 2, 0, 0, 0, 1, 0, 0, 0, 195] 0 = Inr (5, [65533], [])"
    by code_simp
  have a: "decodeKV [5, 0, 0, 0, 1, 0, 0, 0, 1, 0, 0] 0 = Inl RangeError"
    using decodeKV_truncated [of "[5, 0, 0, 0, 1, 0, 0, 0, 1, 0, 0]" 0] by simp
  have b: "\<exists>ts k v. decodeKV [9, 5, 0, 0, 0, 2, 0, 0, 0, 1, 0, 0, 0, 195] 1 = Inr (ts, k, v)"
    using decodeKV_truncated [of "[9, 5, 0, 0, 0, 2, 0, 0, 0, 1, 0, 0, 0, 195]" 1] by simp
  have c: "\<exists>ts ks vs. 0 \<le> ts \<and> ts < 4294967296 \<and> 0 \<le> ks \<and> ks < 4294967296 \<and>
      0 \<le> vs \<and> vs < 4294967296 \<and>
      take 12 [5, 0, 0, 0, 2, 0, 0, 0, 1, 0, 0, 0, 195] = le32 ts @ le32 ks @ le32 vs \<and>
      decodeKV [5, 0, 0, 0, 2, 0, 0, 0, 1, 0, 0, 0, 195] 0
        = Inr (ts, utf8_decode (take (nat ks) (drop 12 [5, 0, 0, 0, 2, 0, 0, 0, 1, 0, 0, 0, 195])),
               utf8_decode (take (nat vs)
                 (drop (12 + nat ks) [5, 0, 0, 0, 2, 0, 0, 0, 1, 0, 0, 0, 195])))"
    using decodeKV_truncated [of "[5, 0, 0, 0, 2, 0, 0, 0, 1, 0, 0, 0, 195]" 0]
    by (simp del: take_Cons_numeral drop_Cons_numeral)
  from a b c e show ?thesis by blast
qed

text \<open>
  At offset 0 \<open>decodeKV\<close> decodes the record that starts there; for every other offset
  there is a buffer on which it does not.
\<close>

lemma decodeKV_at_zero: "decodeKV buff 0 = decode_record_at buff 0"
  by (simp add: decodeKV_def decode_record_at_def split: sum.splits)

lemma decodeKV_differs:
  assumes "0 < off"
  shows "\<exists>buff. decodeKV buff off \<noteq> decode_record_at buff off"
proof -
  define pre :: "byte list" where "pre = replicate off 0 @ le32 0 @ le32 1 @ le32 0"
  have len: "length pre = off + 12"
    by (simp add: pre_def length_le32)
  have "decodeHeader (replicate off 0 @ le32 0 @ le32 1 @ le32 0 @ [2]) off = Inr (0, 1, 0)"
    by (intro decodeHeader_bytes) simp_all
  then have h: "decodeHeader (pre @ [2]) off = Inr (0, 1, 0)"
    by (simp add: pre_def)
  have small: "\<And>x. x \<in> set pre \<Longrightarrow> x = 0 \<or> x = 1"
    by (auto simp: pre_def le32_def)
  have d2: "utf8_decode [2] = [2]"
    by code_simp
  have at: "decode_record_at (pre @ [2]) off = Inr (0, [2], [])"
    using h len by (simp add: decode_record_at_def toString_take_drop d2)
  have "drop 12 pre \<noteq> []"
    using len assms by simp
  then obtain x xs where x: "drop 12 pre = x # xs"
    by (cases "drop 12 pre") auto
  have "x \<in> set (drop 12 pre)"
    by (simp add: x)
  then have "x \<in> set pre"
    using set_drop_subset [of 12 pre] by blast
  then have "x = 0 \<or> x = 1"
    by (rule small)
  moreover have "utf8_decode [0] = [0]" "utf8_decode [1] = [1]"
    by code_simp+
  ultimately have "utf8_decode [x] \<noteq> [2]"
    by auto
  moreover have "toString (pre @ [2]) 12 13 = utf8_decode [x]"
    using len assms by (simp add: toString_take_drop x)
  ultimately have "decodeKV (pre @ [2]) off \<noteq> Inr (0, [2], [])"
    using h by (simp add: decodeKV_def)
  with at show ?thesis
    by (intro exI [of _ "pre @ [2]"]) simp
qed

text \<open>
  C10. For every buffer and offset with twelve bytes available at the offset, \<open>decodeKV\<close>
  returns the timestamp whose little-endian bytes stand at the offset, and the header's
  key size and value size are those whose bytes stand at offset + 4 and offset + 8; but
  the key and the value are decoded from positions \<open>12\<close> and \<open>12 + key_size\<close> of the
  buffer, whatever the offset. So \<open>decodeKV\<close> at an offset coincides with
  \<open>decode_record_at\<close> on all buffers iff the offset is \<open>0\<close>.
\<close>

theorem decodeKV_ignores_offset:
  "(off + 12 \<le> length buff \<longrightarrow>
      (\<exists>ts ks vs. 0 \<le> ts \<and> ts < 4294967296 \<and> 0 \<le> ks \<and> ks < 4294967296 \<and>
         0 \<le> vs \<and> vs < 4294967296 \<and>
         take 12 (drop off buff) = le32 ts @ le32 ks @ le32 vs \<and>
         decodeKV buff off = Inr (ts, utf8_decode (take (nat ks) (drop 12 buff)),
                                   utf8_decode (take (nat vs) (drop (12 + nat ks) buff))))) \<and>
   ((\<forall>b. decodeKV b off = decode_record_at b off) \<longleftrightarrow> off = 0)"
proof (intro conjI impI)
  assume "off + 12 \<le> length buff"
  then obtain ts ks vs where r: "0 \<le> ts" "ts < 4294967296" "0 \<le> ks" "ks < 4294967296"
      "0 \<le> vs" "vs < 4294967296"
    and b: "take 12 (drop off buff) = le32 ts @ le32 ks @ le32 vs"
    and h: "decodeHeader buff off = Inr (ts, ks, vs)"
    using decodeHeader_reads [of off buff] by auto
  have "decodeKV buff off = Inr (ts, utf8_decode (take (nat ks) (drop 12 buff)),
                                   utf8_decode (take (nat vs) (drop (12 + nat ks) buff)))"
    using h by (simp add: decodeKV_def toString_take_drop)
  with r b show "\<exists>ts ks vs. 0 \<le> ts \<and> ts < 4294967296 \<and> 0 \<le> ks \<and> ks < 4294967296 \<and>
         0 \<le> vs \<and> vs < 4294967296 \<and>
         take 12 (drop off buff) = le32 ts @ le32 ks @ le32 vs \<and>
         decodeKV buff off = Inr (ts, utf8_decode (take (nat ks) (drop 12 buff)),
                                   utf8_decode (take (nat vs) (drop (12 + nat ks) buff)))"
    by auto
next
  show "(\<forall>b. decodeKV b off = decode_record_at b off) \<longleftrightarrow> off = 0"
    using decodeKV_differs [of off] decodeKV_at_zero by (cases "off = 0") auto
qed

theorem decodeKV_ignores_offset_witness:
  "(\<exists>ts ks vs. 0 \<le> ts \<and> ts < 4294967296 \<and> 0 \<le> ks \<and> ks < 4294967296 \<and>
      0 \<le> vs \<and> vs < 4294967296 \<and>
      take 12 (drop 14 [5, 0, 0, 0, 1, 0, 0, 0, 1, 0, 0, 0, 97, 120,
                        6, 0, 0, 0, 1, 0, 0, 0, 1, 0, 0, 0, 98, 121])
        = le32 ts @ le32 ks @ le32 vs \<and>
      decodeKV [5, 0, 0, 0, 1, 0, 0, 0, 1, 0, 0, 0, 97, 120,
                6, 0, 0, 0, 1, 0, 0, 0, 1, 0, 0, 0, 98, 121] 14
        = Inr (ts,
               utf8_decode (take (nat ks) (drop 12 [5, 0, 0, 0, 1, 0, 0, 0, 1, 0, 0, 0, 97, 120,
                                                    6, 0, 0, 0, 1, 0, 0, 0, 1, 0, 0, 0, 98, 121])),
               utf8_decode (take (nat vs)
                 (drop (12 + nat ks) [5, 0, 0, 0, 1, 0, 0, 0, 1, 0, 0, 0, 97, 120,
                                      6, 0, 0, 0, 1, 0, 0, 0, 1, 0, 0, 0, 98, 121])))) \<and>
   (\<exists>b. decodeKV b 14 \<noteq> decode_record_at b 14) \<and>
   take 12 (drop 14 [5, 0, 0, 0, 1, 0, 0, 0, 1, 0, 0, 0, 97, 120,
                     6, 0, 0, 0, 1, 0, 0, 0, 1, 0, 0, 0, 98, 121 :: byte])
     = le32 6 @ le32 1 @ le32 1 \<and>
   decodeKV [5, 0, 0, 0, 1, 0, 0, 0, 1, 0, 0, 0, 97, 120,
             6, 0, 0, 0, 1, 0, 0, 0, 1, 0, 0, 0, 98, 121] 14 = Inr (6, [97], [120]) \<and>
   decode_record_at [5, 0, 0, 0, 1, 0, 0, 0, 1, 0, 0, 0, 97, 120,
                     6, 0, 0, 0, 1, 0, 0, 0, 1, 0, 0, 0, 98, 121] 14 = Inr (6, [98], [121])"
proof -
  have e: "take 12 (drop 14 [5, 0, 0, 0, 1, 0, 0, 0, 1, 0, 0, 0, 97, 120,
                     6, 0, 0, 0, 1, 0, 0, 0, 1, 0, 0, 0, 98, 121 :: byte])
     = le32 6 @ le32 1 @ le32 1"
    "decodeKV [5, 0, 0, 0, 1, 0, 0, 0, 1, 0, 0, 0, 97, 120,
             6, 0, 0, 0, 1, 0, 0, 0, 1, 0, 0, 0, 98, 121] 14 = Inr (6, [97], [120])"
    "decode_record_at [5, 0, 0, 0, 1, 0, 0, 0, 1, 0, 0, 0, 97, 120,
                     6, 0, 0, 0, 1, 0, 0, 0, 1, 0, 0, 0, 98, 121] 14 = Inr (6, [98], [121])"
    by code_simp+
  have l: "14 + 12 \<le> length [5, 0, 0, 0, 1, 0, 0, 0, 1, 0, 0, 0, 97, 120,
                 6, 0, 0, 0, 1, 0, 0, 0, 1, 0, 0, 0, 98, 121 :: byte]"
    by simp
  have n: "(14::nat) \<noteq> 0"
    by simp
  note t = decodeKV_ignores_offset [of 14 "[5, 0, 0, 0, 1, 0, 0, 0, 1, 0, 0, 0, 97, 120,
                 6, 0, 0, 0, 1, 0, 0, 0, 1, 0, 0, 0, 98, 121]"]
  from t l have a: "\<exists>ts ks vs. 0 \<le> ts \<and> ts < 4294967296 \<and> 0 \<le> ks \<and> ks < 4294967296 \<and>
      0 \<le> vs \<and> vs < 4294967296 \<and>
      take 12 (drop 14 [5, 0, 0, 0, 1, 0, 0, 0, 1, 0, 0, 0, 97, 120,
                        6, 0, 0, 0, 1, 0, 0, 0, 1, 0, 0, 0, 98, 121])
        = le32 ts @ le32 ks @ le32 vs \<and>
      decodeKV [5, 0, 0, 0, 1, 0, 0, 0, 1, 0, 0, 0, 97, 120,
                6, 0, 0, 0, 1, 0, 0, 0, 1, 0, 0, 0, 98, 121] 14
        = Inr (ts,
               utf8_decode (take (nat ks) (drop 12 [5, 0, 0, 0, 1, 0, 0, 0, 1, 0, 0, 0, 97, 120,
                                                    6, 0, 0, 0, 1, 0, 0, 0, 1, 0, 0, 0, 98, 121])),
               utf8_decode (take (nat vs)
                 (drop (12 + nat ks) [5, 0, 0, 0, 1, 0, 0, 0, 1, 0, 0, 0, 97, 120,
                                      6, 0, 0, 0, 1, 0, 0, 0, 1, 0, 0, 0, 98, 121])))"
    by blast
  from t n have b: "\<exists>b. decodeKV b 14 \<noteq> decode_record_at b 14"
    by blast
  from a b e show ?thesis
    by blast
qed

section \<open>Properties of the log store\<close>

lemma DiskStorage_empty:
  "DiskStorage [] = Inr \<lparr>keyDir = Map.empty, writePosition = 0, logFile = []\<rparr>"
  by (simp add: DiskStorage_def initKeyDir_def)

text \<open>Opening never moves the write cursor: it is 0 whatever the file holds.\<close>

lemma DiskStorage_writePosition:
  "DiskStorage f = Inr st \<Longrightarrow> writePosition st = 0 \<and> logFile st = f"
  by (auto simp: DiskStorage_def split: sum.splits)

lemma length_file_read: "length (file_read f n pos) = n"
  by (simp add: file_read_def length_write_at alloc_def)

lemma file_read_nothing:
  "length f \<le> pos \<Longrightarrow> file_read f n pos = replicate n 0"
  by (simp add: file_read_def write_at_def alloc_def)

lemma file_read_appended:
  "file_read (f @ data) (length data) (length f) = data"
  by (simp add: file_read_def write_at_def alloc_def)

text \<open>The read buffer holds the bytes available at the position, then zeros.\<close>

lemma file_read_padded:
  "file_read f n pos
     = take n (drop pos f) @ replicate (n - length (take n (drop pos f))) 0"
  by (simp add: file_read_def write_at_def alloc_def)

lemma decodeHeader_zeros:
  "12 \<le> n \<Longrightarrow> decodeHeader (replicate n 0) 0 = Inr (0, 0, 0)"
  by (simp add: decodeHeader_def readUInt32LE_def)

lemma writeUInt32LE_length:
  "writeUInt32LE b v off = Inr b' \<Longrightarrow> length b' = length b"
  by (auto simp: writeUInt32LE_def length_write_at split: if_splits)

lemma encodeHeader_length:
  "encodeHeader b ts ks vs = Inr b' \<Longrightarrow> length b' = length b"
  by (auto simp: encodeHeader_def split: sum.splits dest!: writeUInt32LE_length)

lemma encodeKV_length:
  "encodeKV ts key val = Inr data \<Longrightarrow>
   length data = 12 + byteLength key + byteLength val"
  by (auto simp: encodeKV_def Let_def write_str_def length_write_at alloc_def
      split: sum.splits if_splits dest!: encodeHeader_length)

lemma set_kv_ok:
  assumes "encodeKV ts key val = Inr data"
  shows "set_kv IoOk ts key val st =
           (None, st\<lparr>logFile := logFile st @ data,
                     keyDir := (keyDir st)(key \<mapsto> \<lparr>timestamp = ts, position = writePosition st,
                                                     sizeK = length data\<rparr>),
                     writePosition := writePosition st + length data\<rparr>)"
  using assms by (simp add: set_kv_def file_write_def file_sync_def Let_def)

text \<open>A successful \<open>set\<close> keeps the write cursor at the end of the file if it was there.\<close>

lemma set_kv_cursor:
  assumes "writePosition st = length (logFile st)"
    and "fst (set_kv IoOk ts key val st) = None"
  shows "writePosition (snd (set_kv IoOk ts key val st))
           = length (logFile (snd (set_kv IoOk ts key val st)))"
  using assms
  by (auto simp: set_kv_def file_write_def file_sync_def Let_def split: sum.splits)

text \<open>
  When the write cursor is at the end of the file, as in a session opened on an empty
  file in which every \<open>set\<close> so far succeeded, \<open>get\<close> right after \<open>set\<close> of well-formed
  strings returns the value written. This includes the empty string written by a
  tombstone \<open>set\<close>.
\<close>

lemma put_then_get:
  assumes "writePosition st = length (logFile st)"
    and "0 \<le> ts" "ts < 4294967296" "well_formed key" "well_formed val"
    and "byteLength key < 4294967296" "byteLength val < 4294967296"
  shows "get key (snd (set_kv IoOk ts key val st)) = Inr (Some val)"
proof -
  define data where
    "data = le32 ts @ le32 (int (byteLength key)) @ le32 (int (byteLength val))
              @ utf8_encode key @ utf8_encode val"
  have e: "encodeKV ts key val = Inr data"
    unfolding data_def using assms(2,3,4,6,7) by (rule encodeKV_bytes)
  have d: "decodeKV data 0 = Inr (ts, key, val)"
    unfolding data_def using assms(2-7) by (rule decodeKV_record_bytes)
  show ?thesis
    using assms(1) d by (simp add: set_kv_ok [OF e] get_def file_read_appended)
qed

text \<open>Every entry the code puts into the KeyDir has a size of at least the header size.\<close>

lemma set_kv_entry_size:
  assumes "\<And>k e. keyDir st k = Some e \<Longrightarrow> 12 \<le> sizeK e"
    and "keyDir (snd (set_kv env ts key val st)) k = Some e"
  shows "12 \<le> sizeK e"
  using assms
  by (auto simp: set_kv_def file_write_def file_sync_def Let_def
      split: sum.splits io.splits option.splits prod.splits if_splits dest!: encodeKV_length)

lemma initKeyDir_loop_done:
  "\<not> offset < length buffer \<Longrightarrow> initKeyDir_loop buffer offset kd = Inr kd"
  by (subst initKeyDir_loop.simps) simp

lemma initKeyDir_loop_fail:
  "offset < length buffer \<Longrightarrow> decodeHeader buffer offset = Inl e \<Longrightarrow>
   initKeyDir_loop buffer offset kd = Inl e"
  by (subst initKeyDir_loop.simps) simp

lemma initKeyDir_loop_step:
  assumes "offset < length buffer" and "decodeHeader buffer offset = Inr (ts, ks, vs)"
  shows "initKeyDir_loop buffer offset kd =
           initKeyDir_loop buffer (offset + (12 + nat ks + nat vs))
             (let key = toString buffer (offset + 12) (offset + 12 + nat ks);
                  val = toString buffer (offset + 12 + nat ks) (offset + 12 + nat ks + nat vs)
              in if val = [] \<and> kd key \<noteq> None then kd(key := None)
                 else kd(key \<mapsto> \<lparr>timestamp = ts, position = offset,
                                  sizeK = 12 + nat ks + nat vs\<rparr>))"
  by (subst initKeyDir_loop.simps) (auto simp: assms Let_def)

lemma initKeyDir_loop_entry_size:
  assumes "initKeyDir_loop buffer offset kd = Inr kd'"
    and "\<And>k e. kd k = Some e \<Longrightarrow> 12 \<le> sizeK e"
    and "kd' k = Some e"
  shows "12 \<le> sizeK e"
  using assms
proof (induction "length buffer - offset" arbitrary: offset kd rule: less_induct)
  case less
  show ?case
  proof (cases "offset < length buffer")
    case False
    with less.prems show ?thesis
      by (simp add: initKeyDir_loop_done)
  next
    case True
    show ?thesis
    proof (cases "decodeHeader buffer offset")
      case (Inl err)
      with True less.prems(1) show ?thesis
        by (simp add: initKeyDir_loop_fail)
    next
      case (Inr h)
      obtain ts ks vs where h: "h = (ts, ks, vs)"
        by (cases h) auto
      let ?kd = "let key = toString buffer (offset + 12) (offset + 12 + nat ks);
                  val = toString buffer (offset + 12 + nat ks) (offset + 12 + nat ks + nat vs)
              in if val = [] \<and> kd key \<noteq> None then kd(key := None)
                 else kd(key \<mapsto> \<lparr>timestamp = ts, position = offset,
                                  sizeK = 12 + nat ks + nat vs\<rparr>)"
      have step: "initKeyDir_loop buffer (offset + (12 + nat ks + nat vs)) ?kd = Inr kd'"
        using initKeyDir_loop_step [OF True, of ts ks vs kd] Inr h less.prems(1) by simp
      have inv: "\<And>k e. ?kd k = Some e \<Longrightarrow> 12 \<le> sizeK e"
        using less.prems(2) by (auto simp: Let_def split: if_splits)
      show ?thesis
        using less.hyps [OF _ step inv less.prems(3)] True by simp
    qed
  qed
qed

lemma DiskStorage_entry_size:
  assumes "DiskStorage f = Inr st" and "keyDir st k = Some e"
  shows "12 \<le> sizeK e"
proof -
  from assms obtain kd where kd: "initKeyDir f = Inr kd" and st: "keyDir st = kd"
    by (auto simp: DiskStorage_def split: sum.splits)
  show ?thesis
  proof (cases "length f = 0")
    case True
    with kd st assms(2) show ?thesis by (auto simp: initKeyDir_def)
  next
    case False
    with kd have "initKeyDir_loop f 0 Map.empty = Inr kd"
      by (simp add: initKeyDir_def)
    then show ?thesis
      using initKeyDir_loop_entry_size [of f 0 Map.empty kd k e] st assms(2) by simp
  qed
qed

subsection \<open>Recovery of a well-formed log\<close>

lemma length_record_bytes:
  "length (record_bytes (ts, key, val)) = 12 + byteLength key + byteLength val"
  by (simp add: record_bytes_def length_le32 byteLength_def)

lemma initKeyDir_loop_record:
  assumes "valid_record (ts, key, val)"
  shows "initKeyDir_loop (pre @ record_bytes (ts, key, val) @ post) (length pre) kd =
           initKeyDir_loop (pre @ record_bytes (ts, key, val) @ post)
             (length pre + (12 + byteLength key + byteLength val))
             (if val = [] \<and> kd key \<noteq> None then kd(key := None)
              else kd(key \<mapsto> \<lparr>timestamp = ts, position = length pre,
                               sizeK = 12 + byteLength key + byteLength val\<rparr>))"
proof -
  define ks where "ks = byteLength key"
  define vs where "vs = byteLength val"
  define kb where "kb = utf8_encode key"
  define vb where "vb = utf8_encode val"
  have lk: "length kb = ks" and lv: "length vb = vs"
    by (simp_all add: kb_def vb_def ks_def vs_def byteLength_def)
  have dk: "utf8_decode kb = key" and dv: "utf8_decode vb = val"
    using assms by (simp_all add: kb_def vb_def decode_encode_id valid_record_def)
  have rb: "record_bytes (ts, key, val) = le32 ts @ le32 (int ks) @ le32 (int vs) @ kb @ vb"
    by (simp add: record_bytes_def ks_def vs_def kb_def vb_def)
  define buf where "buf = pre @ record_bytes (ts, key, val) @ post"
  have lt: "length pre < length buf"
    by (simp add: buf_def rb length_le32)
  have "decodeHeader (pre @ le32 ts @ le32 (int ks) @ le32 (int vs) @ (kb @ vb @ post))
          (length pre) = Inr (ts, int ks, int vs)"
    using assms unfolding ks_def vs_def
    by (intro decodeHeader_bytes) (simp_all add: valid_record_def)
  then have h: "decodeHeader buf (length pre) = Inr (ts, int ks, int vs)"
    by (simp add: buf_def rb)
  have k: "toString buf (length pre + 12) (length pre + 12 + ks) = key"
    by (simp add: toString_take_drop buf_def rb length_le32 lk dk)
  have v: "toString buf (length pre + 12 + ks) (length pre + 12 + ks + vs) = val"
    by (simp add: toString_take_drop buf_def rb length_le32 lk lv dv)
  have "initKeyDir_loop buf (length pre) kd =
           initKeyDir_loop buf (length pre + (12 + ks + vs))
             (if val = [] \<and> kd key \<noteq> None then kd(key := None)
              else kd(key \<mapsto> \<lparr>timestamp = ts, position = length pre,
                               sizeK = 12 + ks + vs\<rparr>))"
    using initKeyDir_loop_step [OF lt h, of kd] k v by (auto simp: Let_def)
  then show ?thesis
    unfolding buf_def ks_def vs_def .
qed

text \<open>On a well-formed log the recovery scan succeeds and computes \<open>replay\<close>.\<close>

lemma initKeyDir_loop_replay:
  assumes "list_all valid_record rs"
  shows "initKeyDir_loop (pre @ concat (map record_bytes rs)) (length pre) kd
           = Inr (replay (length pre) rs kd)"
  using assms
proof (induction rs arbitrary: pre kd)
  case Nil
  then show ?case by (simp add: initKeyDir_loop_done)
next
  case (Cons r rs)
  obtain ts key val where r: "r = (ts, key, val)"
    by (cases r) auto
  have v: "valid_record (ts, key, val)" and vs: "list_all valid_record rs"
    using Cons.prems r by simp_all
  let ?kd = "if val = [] \<and> kd key \<noteq> None then kd(key := None)
              else kd(key \<mapsto> \<lparr>timestamp = ts, position = length pre,
                               sizeK = 12 + byteLength key + byteLength val\<rparr>)"
  have "initKeyDir_loop (pre @ record_bytes (ts, key, val) @ concat (map record_bytes rs))
          (length pre) kd
        = initKeyDir_loop ((pre @ record_bytes (ts, key, val)) @ concat (map record_bytes rs))
            (length (pre @ record_bytes (ts, key, val))) ?kd"
    using initKeyDir_loop_record [OF v, of pre "concat (map record_bytes rs)" kd]
    by (simp add: length_record_bytes)
  also have "\<dots> = Inr (replay (length (pre @ record_bytes (ts, key, val))) rs ?kd)"
    using Cons.IH [OF vs] by blast
  finally show ?case
    by (simp add: r length_record_bytes)
qed


lemma DiskStorage_replay:
  assumes "list_all valid_record rs"
  shows "DiskStorage (concat (map record_bytes rs))
           = Inr \<lparr>keyDir = replay 0 rs Map.empty, writePosition = 0,
                  logFile = concat (map record_bytes rs)\<rparr>"
proof (cases "concat (map record_bytes rs) = []")
  case True
  have "rs = []"
  proof (cases rs)
    case (Cons r rs')
    obtain ts key val where "r = (ts, key, val)" by (cases r) auto
    with True Cons show ?thesis by (simp add: record_bytes_def le32_def)
  qed simp
  with True show ?thesis
    by (simp add: DiskStorage_def initKeyDir_def)
next
  case False
  have "initKeyDir_loop ([] @ concat (map record_bytes rs)) (length ([] :: byte list)) Map.empty
          = Inr (replay (length ([] :: byte list)) rs Map.empty)"
    using assms by (rule initKeyDir_loop_replay)
  then have l: "initKeyDir_loop (concat (map record_bytes rs)) 0 Map.empty
          = Inr (replay 0 rs Map.empty)"
    by simp
  have "initKeyDir (concat (map record_bytes rs))
          = initKeyDir_loop (concat (map record_bytes rs)) 0 Map.empty"
    using False by (auto simp: initKeyDir_def)
  with l show ?thesis
    by (simp add: DiskStorage_def)
qed

lemma set_kv_appends_record:
  assumes "valid_record (ts, key, val)"
  shows "set_kv IoOk ts key val st =
           (None, st\<lparr>logFile := logFile st @ record_bytes (ts, key, val),
                     keyDir := (keyDir st)(key \<mapsto> \<lparr>timestamp = ts, position = writePosition st,
                                                     sizeK = 12 + byteLength key + byteLength val\<rparr>),
                     writePosition := writePosition st + (12 + byteLength key + byteLength val)\<rparr>)"
proof -
  have "encodeKV ts key val = Inr (record_bytes (ts, key, val))"
    using assms encodeKV_bytes [of ts key val] by (simp add: valid_record_def record_bytes_def)
  then show ?thesis
    by (simp add: set_kv_ok length_record_bytes)
qed

lemma replay_append:
  "replay off (rs @ rs') kd
     = replay (off + length (concat (map record_bytes rs))) rs' (replay off rs kd)"
proof (induction rs arbitrary: off kd)
  case Nil
  then show ?case by simp
next
  case (Cons r rs)
  obtain ts key val where r: "r = (ts, key, val)" by (cases r) auto
  show ?case
    unfolding r by (simp add: Cons.IH length_record_bytes add.assoc)
qed

lemma replay_put_delete:
  assumes "val \<noteq> []"
  shows "replay off (rs @ [(t1, key, val), (t2, key, [])]) kd key = None"
  using assms by (simp add: replay_append)

text \<open>
  On a well-formed log, a put of a non-empty value followed by a tombstone put of the same
  key leaves the key absent after close and reopen.
\<close>

lemma reopen_after_delete:
  assumes "list_all valid_record rs" and "logFile st = concat (map record_bytes rs)"
    and "valid_record (t1, key, val)" and "valid_record (t2, key, [])" and "val \<noteq> []"
  shows "\<exists>s. DiskStorage (close (snd (set_kv IoOk t2 key [] (snd (set_kv IoOk t1 key val st)))))
               = Inr s \<and> keyDir s key = None \<and> get key s = Inr None"
proof -
  let ?rs = "rs @ [(t1, key, val), (t2, key, [])]"
  have f: "close (snd (set_kv IoOk t2 key [] (snd (set_kv IoOk t1 key val st))))
             = concat (map record_bytes ?rs)"
    using assms(2) by (simp add: close_def set_kv_appends_record [OF assms(3)]
        set_kv_appends_record [OF assms(4)])
  have "list_all valid_record ?rs"
    using assms(1,3,4) by simp
  then have "DiskStorage (concat (map record_bytes ?rs))
           = Inr \<lparr>keyDir = replay 0 ?rs Map.empty, writePosition = 0,
                  logFile = concat (map record_bytes ?rs)\<rparr>"
    by (rule DiskStorage_replay)
  moreover have "replay 0 ?rs Map.empty key = None"
    using assms(5) by (rule replay_put_delete)
  ultimately show ?thesis
    unfolding f by (simp add: get_def)
qed

text \<open>
  C9. \<open>set\<close> touches the KeyDir and the write cursor only after both the append and the
  flush have succeeded: whenever \<open>set\<close> throws, both are as before the call; a failing
  write or a failing flush does make it throw; and when it does not throw, the encoded
  record has been appended to the file.
\<close>

theorem set_kv_error_atomic:
  "(fst (set_kv env ts key val st) \<noteq> None \<longrightarrow>
      keyDir (snd (set_kv env ts key val st)) = keyDir st \<and>
      writePosition (snd (set_kv env ts key val st)) = writePosition st) \<and>
   (env \<noteq> IoOk \<longrightarrow> fst (set_kv env ts key val st) \<noteq> None) \<and>
   (fst (set_kv env ts key val st) = None \<longrightarrow>
      (\<exists>data. encodeKV ts key val = Inr data \<and>
              logFile (snd (set_kv env ts key val st)) = logFile st @ data))"
  by (auto simp: set_kv_def file_write_def file_sync_def Let_def
      split: sum.splits io.splits option.splits prod.splits)

theorem set_kv_error_atomic_witness:
  "fst (set_kv SyncFails 5 [107] [118]
          \<lparr>keyDir = Map.empty, writePosition = 0, logFile = []\<rparr>) = Some IOError \<and>
   keyDir (snd (set_kv SyncFails 5 [107] [118]
          \<lparr>keyDir = Map.empty, writePosition = 0, logFile = []\<rparr>)) = Map.empty \<and>
   writePosition (snd (set_kv SyncFails 5 [107] [118]
          \<lparr>keyDir = Map.empty, writePosition = 0, logFile = []\<rparr>)) = 0 \<and>
   fst (set_kv IoOk 5 [107] [118]
          \<lparr>keyDir = Map.empty, writePosition = 0, logFile = []\<rparr>) = None \<and>
   logFile (snd (set_kv IoOk 5 [107] [118]
          \<lparr>keyDir = Map.empty, writePosition = 0, logFile = []\<rparr>))
     = [5, 0, 0, 0, 1, 0, 0, 0, 1, 0, 0, 0, 107, 118]"
proof -
  have f: "fst (set_kv SyncFails 5 [107] [118]
          \<lparr>keyDir = Map.empty, writePosition = 0, logFile = []\<rparr>) = Some IOError"
    by code_simp
  have g: "fst (set_kv IoOk 5 [107] [118]
          \<lparr>keyDir = Map.empty, writePosition = 0, logFile = []\<rparr>) = None"
    by code_simp
  have e: "encodeKV 5 [107] [118] = Inr [5, 0, 0, 0, 1, 0, 0, 0, 1, 0, 0, 0, 107, 118]"
    by code_simp
  show ?thesis
    using set_kv_error_atomic [of SyncFails 5 "[107]" "[118]"
          "\<lparr>keyDir = Map.empty, writePosition = 0, logFile = []\<rparr>"]
          set_kv_error_atomic [of IoOk 5 "[107]" "[118]"
          "\<lparr>keyDir = Map.empty, writePosition = 0, logFile = []\<rparr>"] f g e
    by simp
qed

text \<open>
  C4 (the claim as stated does not hold). Key \<open>k\<close> is put with value \<open>v\<close> into a new
  store and the file is then cut to 13 of its 14 bytes. The entry for \<open>k\<close> still asks for
  14 bytes from position 0, only 13 can be read, and \<open>get\<close> does not fail: it returns a
  one-character value, the zero byte the read buffer was allocated with.
\<close>

theorem get_truncated_file_returns_value:
  "(case DiskStorage [] of
      Inl e \<Rightarrow> False
    | Inr s0 \<Rightarrow>
        (let s1 = snd (set_kv IoOk 5 [107] [118] s0);
             s2 = s1\<lparr>logFile := take 13 (logFile s1)\<rparr>
         in keyDir s2 [107] = Some \<lparr>timestamp = 5, position = 0, sizeK = 14\<rparr> \<and>
            length (logFile s2) = 13 \<and>
            get [107] s2 = Inr (Some [0])))"
  by code_simp

text \<open>
  C4 (amended). For every key present in the KeyDir with an entry size of at least the
  header size (every entry the code creates has one, see \<open>set_kv_entry_size\<close> and
  \<open>DiskStorage_entry_size\<close>) that the platform can allocate a buffer for, \<open>get\<close>
  neither fails nor returns absent, however short the file is. Its read buffer holds the bytes the file has in the entry's range,
  followed by zeros up to the entry size, and \<open>get\<close> returns the value that buffer
  decodes to: with the header fields given by the first twelve bytes of the buffer, the
  UTF-8 decoding of its bytes from \<open>12 + key_size\<close>, at most \<open>value_size\<close> of them. When
  nothing can be read at the entry's position the value returned is the empty string.
\<close>

theorem get_short_read:
  assumes "keyDir st key = Some e" and "12 \<le> sizeK e"
    and "avail = take (sizeK e) (drop (position e) (logFile st))"
    and "buf = avail @ replicate (sizeK e - length avail) 0"
  shows "(\<exists>ts ks vs. 0 \<le> ts \<and> ts < 4294967296 \<and> 0 \<le> ks \<and> ks < 4294967296 \<and>
            0 \<le> vs \<and> vs < 4294967296 \<and>
            take 12 buf = le32 ts @ le32 ks @ le32 vs \<and>
            get key st = Inr (Some (utf8_decode (take (nat vs) (drop (12 + nat ks) buf))))) \<and>
         (length (logFile st) \<le> position e \<longrightarrow> get key st = Inr (Some []))"
proof
  have fr: "file_read (logFile st) (sizeK e) (position e) = buf"
    by (simp only: file_read_padded assms(3,4))
  have "length buf = sizeK e"
    using length_file_read [of "logFile st" "sizeK e" "position e"] by (simp only: fr)
  then have "0 + 12 \<le> length buf"
    using assms(2) by simp
  then obtain ts ks vs where r: "0 \<le> ts" "ts < 4294967296" "0 \<le> ks" "ks < 4294967296"
      "0 \<le> vs" "vs < 4294967296"
    and b: "take 12 (drop 0 buf) = le32 ts @ le32 ks @ le32 vs"
    and h: "decodeHeader buf 0 = Inr (ts, ks, vs)"
    using decodeHeader_reads [of 0 buf] by auto
  have "get key st = Inr (Some (utf8_decode (take (nat vs) (drop (12 + nat ks) buf))))"
    using assms(1) h by (simp add: get_def fr decodeKV_def toString_take_drop)
  with r b show "\<exists>ts ks vs. 0 \<le> ts \<and> ts < 4294967296 \<and> 0 \<le> ks \<and> ks < 4294967296 \<and>
            0 \<le> vs \<and> vs < 4294967296 \<and>
            take 12 buf = le32 ts @ le32 ks @ le32 vs \<and>
            get key st = Inr (Some (utf8_decode (take (nat vs) (drop (12 + nat ks) buf))))"
    by auto
next
  show "length (logFile st) \<le> position e \<longrightarrow> get key st = Inr (Some [])"
    using assms(1,2)
    by (simp add: get_def decodeKV_def file_read_nothing decodeHeader_zeros toString_take_drop)
qed

theorem get_short_read_witness:
  "(\<exists>ts ks vs. 0 \<le> ts \<and> ts < 4294967296 \<and> 0 \<le> ks \<and> ks < 4294967296 \<and>
      0 \<le> vs \<and> vs < 4294967296 \<and>
      take 12 [5, 0, 0, 0, 1, 0, 0, 0, 2, 0, 0, 0, 107, 195, 0] = le32 ts @ le32 ks @ le32 vs \<and>
      get [107] \<lparr>keyDir = [[107] \<mapsto> \<lparr>timestamp = 5, position = 0, sizeK = 15\<rparr>],
                 writePosition = 15,
                 logFile = [5, 0, 0, 0, 1, 0, 0, 0, 2, 0, 0, 0, 107, 195]\<rparr>
        = Inr (Some (utf8_decode (take (nat vs)
            (drop (12 + nat ks) [5, 0, 0, 0, 1, 0, 0, 0, 2, 0, 0, 0, 107, 195, 0]))))) \<and>
   get [107] \<lparr>keyDir = [[107] \<mapsto> \<lparr>timestamp = 5, position = 0, sizeK = 15\<rparr>],
              writePosition = 15,
              logFile = [5, 0, 0, 0, 1, 0, 0, 0, 2, 0, 0, 0, 107, 195]\<rparr>
     = Inr (Some [65533, 0]) \<and>
   get [107] \<lparr>keyDir = [[107] \<mapsto> \<lparr>timestamp = 5, position = 0, sizeK = 15\<rparr>],
              writePosition = 15, logFile = []\<rparr> = Inr (Some [])"
proof -
  let ?e = "\<lparr>timestamp = 5, position = 0, sizeK = 15\<rparr>"
  let ?cut = "\<lparr>keyDir = [[107] \<mapsto> ?e], writePosition = 15,
               logFile = [5, 0, 0, 0, 1, 0, 0, 0, 2, 0, 0, 0, 107, 195]\<rparr>"
  let ?gone = "\<lparr>keyDir = [[107] \<mapsto> ?e], writePosition = 15, logFile = []\<rparr>"
  have a: "\<exists>ts ks vs. 0 \<le> ts \<and> ts < 4294967296 \<and> 0 \<le> ks \<and> ks < 4294967296 \<and>
      0 \<le> vs \<and> vs < 4294967296 \<and>
      take 12 [5, 0, 0, 0, 1, 0, 0, 0, 2, 0, 0, 0, 107, 195, 0] = le32 ts @ le32 ks @ le32 vs \<and>
      get [107] ?cut
        = Inr (Some (utf8_decode (take (nat vs)
            (drop (12 + nat ks) [5, 0, 0, 0, 1, 0, 0, 0, 2, 0, 0, 0, 107, 195, 0]))))"
    using get_short_read [of ?cut "[107]" ?e
        "[5, 0, 0, 0, 1, 0, 0, 0, 2, 0, 0, 0, 107, 195]"
        "[5, 0, 0, 0, 1, 0, 0, 0, 2, 0, 0, 0, 107, 195, 0]"]
    by (simp del: take_Cons_numeral drop_Cons_numeral)
  have b: "get [107] ?gone = Inr (Some [])"
    using get_short_read [of ?gone "[107]" ?e "[]" "replicate 15 0"]
    by simp
  have c: "get [107] ?cut = Inr (Some [65533, 0])"
    by code_simp
  from a b c show ?thesis
    by blast
qed

text \<open>
  C1 (the code departs from the claim). In a store opened on an empty file, \<open>k\<close> is put
  with value \<open>v\<close> and then with the empty value. In the same session \<open>k\<close> is still in
  the KeyDir and \<open>get\<close> returns the empty string, not absent; only after close and reopen
  is \<open>k\<close> absent.
\<close>

theorem tombstone_put_keeps_key:
  "(case DiskStorage [] of
      Inl e \<Rightarrow> False
    | Inr s0 \<Rightarrow>
        (let s2 = snd (set_kv IoOk 6 [107] [] (snd (set_kv IoOk 5 [107] [118] s0)))
         in get [107] s2 = Inr (Some []) \<and>
            keyDir s2 [107] = Some \<lparr>timestamp = 6, position = 14, sizeK = 13\<rparr> \<and>
            (case DiskStorage (close s2) of
               Inl e \<Rightarrow> False
             | Inr s3 \<Rightarrow> keyDir s3 [107] = None \<and> get [107] s3 = Inr None)))"
  by code_simp

text \<open>
  C2 (the code departs from the claim). The log written by a single tombstone put of \<open>k\<close>
  on a new store is one record with an empty value. The recovery scan over that log
  inserts \<open>k\<close> into the KeyDir, and \<open>get\<close> returns the empty string. The same happens when
  the log ends with two tombstones for \<open>k\<close> after a put of \<open>k\<close>.
\<close>

theorem recovery_inserts_tombstone:
  "encodeKV 6 [107] [] = Inr [6, 0, 0, 0, 1, 0, 0, 0, 0, 0, 0, 0, 107] \<and>
   (case DiskStorage [6, 0, 0, 0, 1, 0, 0, 0, 0, 0, 0, 0, 107] of
      Inl e \<Rightarrow> False
    | Inr s \<Rightarrow> keyDir s [107] = Some \<lparr>timestamp = 6, position = 0, sizeK = 13\<rparr> \<and>
               get [107] s = Inr (Some [])) \<and>
   (case DiskStorage [] of
      Inl e \<Rightarrow> False
    | Inr s0 \<Rightarrow>
        (case DiskStorage (close (snd (set_kv IoOk 7 [107] []
                  (snd (set_kv IoOk 6 [107] [] (snd (set_kv IoOk 5 [107] [118] s0))))))) of
           Inl e \<Rightarrow> False
         | Inr s4 \<Rightarrow> keyDir s4 [107] = Some \<lparr>timestamp = 7, position = 27, sizeK = 13\<rparr>))"
  by code_simp

text \<open>
  C3 (the code departs from the claim). Opening a file that holds one 14-byte record
  leaves the write cursor at 0, not at 14. The next put appends its record at offset 14
  of the file, but the KeyEntry it stores has position 0, and the cursor is then 14 while
  the file has 28 bytes.
\<close>

theorem reopen_writePosition_zero:
  "(case DiskStorage [5, 0, 0, 0, 1, 0, 0, 0, 1, 0, 0, 0, 97, 120] of
      Inl e \<Rightarrow> False
    | Inr s \<Rightarrow>
        writePosition s = 0 \<and> length (logFile s) = 14 \<and>
        (let s' = snd (set_kv IoOk 6 [98] [121] s)
         in keyDir s' [98] = Some \<lparr>timestamp = 6, position = 0, sizeK = 14\<rparr> \<and>
            decode_record_at (logFile s') 14 = Inr (6, [98], [121]) \<and>
            writePosition s' = 14 \<and> length (logFile s') = 28))"
  by code_simp

text \<open>
  C8 (the code departs from the claim). A store is reopened on a log holding the record
  of key \<open>a\<close> with value \<open>x\<close>. After \<open>set\<close> of key \<open>b\<close> to \<open>y\<close> in that session, \<open>get\<close>
  of \<open>b\<close> returns \<open>x\<close>.
\<close>

theorem put_get_after_reopen_wrong:
  "encodeKV 5 [97] [120] = Inr [5, 0, 0, 0, 1, 0, 0, 0, 1, 0, 0, 0, 97, 120] \<and>
   (case DiskStorage [5, 0, 0, 0, 1, 0, 0, 0, 1, 0, 0, 0, 97, 120] of
      Inl e \<Rightarrow> False
    | Inr s \<Rightarrow>
        fst (set_kv IoOk 6 [98] [121] s) = None \<and>
        get [98] (snd (set_kv IoOk 6 [98] [121] s)) = Inr (Some [120]))"
  by code_simp

end
